theory Spec2Isabelle
  imports Main "HOL-Library.Word"
begin

section \<open>The Prometheus remote-write storage (src/query/storage/promremote/storage.go)\<close>

text \<open>
  A shallow embedding of the write pipeline of \<^verbatim>\<open>promStorage\<close>: the per-tenant
  \<^verbatim>\<open>WriteQueue\<close>, option validation and \<^verbatim>\<open>NewStorage\<close>, tenant classification
  (\<^verbatim>\<open>getTenant\<close>), the tick flush (\<^verbatim>\<open>flushPendingQueues\<close>), the ticker and the
  select loop of \<^verbatim>\<open>writeLoop\<close>, \<^verbatim>\<open>writeBatch\<close> and the retry loop of \<^verbatim>\<open>write\<close>.

  Go's \<^verbatim>\<open>int\<close> is modelled as \<open>int\<close>: the code only compares these values, counts
  list elements and divides by the constants 10 and 100, so no operation can leave the
  64-bit range for a value that fits in it. Division is Go's, truncating towards zero.
  Mutation through pointers becomes explicit state passing, a \<^verbatim>\<open>nil\<close> slice, pointer
  or error becomes \<open>None\<close>, and a run-time panic becomes \<open>Inl\<close> of a sum type.
  Every mutex-protected method is one atomic function of the queue state. Logging is
  left out except for the warning of the tick flush, which is kept as a trace.
\<close>

subsection \<open>Data model\<close>

type_synonym tenantKey = string

type_synonym tags = "(string \<times> string) list"

record WriteQuery =
  Tags :: tags
  DuplicateWrite :: bool
  FromIngestor :: bool

text \<open>
  Modelled from the spec: the declarations of \<^verbatim>\<open>Options\<close>, \<^verbatim>\<open>EndpointOptions\<close> and of the
  tenant rule type (options.go) are not among the source files. The records below have
  the fields that storage.go reads, with the types its uses force: \<^verbatim>\<open>tickDuration\<close> is a
  pointer to a duration (nanoseconds), a rule is a tag matcher \<^verbatim>\<open>Filter\<close> with its
  \<^verbatim>\<open>Tenant\<close>. The matcher itself is external; it is a predicate on the tags.
\<close>

record TenantRule =
  Filter :: "tags \<Rightarrow> bool"
  Tenant :: string

record EndpointOptions =
  name :: string
  address :: string
  apiToken :: string
  tenantHeader :: string
  otherHeaders :: "(string \<times> string) list"

record Options =
  poolSize :: int
  queueSize :: int
  retries :: int
  tickDuration :: "int option"
  endpoints :: "EndpointOptions list"
  tenantDefault :: string
  tenantRules :: "TenantRule list"

text \<open>The queue's field \<^verbatim>\<open>t\<close> is named \<open>wq_t\<close> here.\<close>

record WriteQueue =
  wq_t :: tenantKey
  capacity :: int
  queries :: "WriteQuery list"

datatype panic =
    MakeSliceCapOutOfRange
  | IndexOutOfRange
  | NilPointerDereference
  | NonPositiveTickerInterval

datatype err =
    ErrNew string
  | ErrConnect
  | ErrStatus int
  | ErrInvalidParams int
  | ErrExternal string

text \<open>Go's integer division truncates towards zero.\<close>

definition go_div :: "int \<Rightarrow> int \<Rightarrow> int" where
  "go_div a b = sgn a * sgn b * (\<bar>a\<bar> div \<bar>b\<bar>)"

subsection \<open>WriteQueue\<close>

text \<open>
  \<^verbatim>\<open>make([]*storage.WriteQuery, 0, capacity)\<close>: an empty slice; Go panics when the
  capacity is negative. (Running out of memory for a huge capacity is outside the model.)
\<close>

definition make_queries :: "int \<Rightarrow> panic + WriteQuery list" where
  "make_queries cap = (if cap < 0 then Inl MakeSliceCapOutOfRange else Inr [])"

definition NewWriteQueue :: "tenantKey \<Rightarrow> int \<Rightarrow> panic + WriteQueue" where
  "NewWriteQueue t c =
     (case make_queries c of
        Inl pn \<Rightarrow> Inl pn
      | Inr qs \<Rightarrow> Inr \<lparr>wq_t = t, capacity = c, queries = qs\<rparr>)"

text \<open>The result is the popped slice (never \<^verbatim>\<open>nil\<close>) and the queue after the call.\<close>

definition popUnderLock :: "WriteQueue \<Rightarrow> panic + (WriteQuery list \<times> WriteQueue)" where
  "popUnderLock wq =
     (let res = queries wq in
      case make_queries (capacity wq) of
        Inl pn \<Rightarrow> Inl pn
      | Inr qs \<Rightarrow> Inr (res, wq\<lparr>queries := qs\<rparr>))"

definition pop :: "WriteQueue \<Rightarrow> panic + (WriteQuery list \<times> WriteQueue)" where
  "pop wq = popUnderLock wq"

definition Len :: "WriteQueue \<Rightarrow> int" where
  "Len wq = int (length (queries wq))"

text \<open>\<^verbatim>\<open>Add\<close> returns \<open>None\<close> for the \<^verbatim>\<open>nil\<close> slice and \<open>Some\<close> of the popped batch.\<close>

definition Add :: "WriteQueue \<Rightarrow> WriteQuery \<Rightarrow> panic + (WriteQuery list option \<times> WriteQueue)" where
  "Add wq query =
     (if int (length (queries wq)) \<ge> capacity wq then
        (case popUnderLock wq of
           Inl pn \<Rightarrow> Inl pn
         | Inr (res, wq') \<Rightarrow> Inr (Some res, wq'))
      else Inr (None, wq\<lparr>queries := queries wq @ [query]\<rparr>))"

subsection \<open>Option validation and tenant classification\<close>

definition validateOptions :: "Options \<Rightarrow> err option" where
  "validateOptions opts =
     (if poolSize opts < 1 then Some (ErrNew ''poolSize must be greater than 0'')
      else if queueSize opts < 1 then
        Some (ErrNew ''queueSize must be greater than 0 to batch writes'')
      else if retries opts < 0 then
        Some (ErrNew ''retries must be greater than or equal to 0'')
      else if tickDuration opts = None then Some (ErrNew ''tickDuration must be set'')
      else if length (endpoints opts) = 0 then Some (ErrNew ''endpoint must not be empty'')
      else None)"

fun getTenant_rules :: "TenantRule list \<Rightarrow> string \<Rightarrow> WriteQuery \<Rightarrow> tenantKey" where
  "getTenant_rules [] dflt query = dflt"
| "getTenant_rules (rule # rules) dflt query =
     (if Filter rule (Tags query) then Tenant rule else getTenant_rules rules dflt query)"

definition getTenant :: "Options \<Rightarrow> WriteQuery \<Rightarrow> tenantKey" where
  "getTenant opts query = getTenant_rules (tenantRules opts) (tenantDefault opts) query"

subsection \<open>The HTTP write with retries\<close>

text \<open>
  What the HTTP client returns for one request: a transport error, or a response with a
  status code. A transport is the response to the k-th request of one call of
  \<^verbatim>\<open>write\<close>, counted from 0. \<open>replay rs d\<close> is the transport that answers with the
  responses \<open>rs\<close> in order and with \<open>d\<close> from then on.
\<close>

datatype response = TransportError | Response int

type_synonym transport = "nat \<Rightarrow> response"

definition replay :: "response list \<Rightarrow> response \<Rightarrow> transport" where
  "replay rs d k = (if k < length rs then rs ! k else d)"

definition doRequest :: "response \<Rightarrow> int \<times> err option" where
  "doRequest r =
     (case r of
        TransportError \<Rightarrow> (503, Some ErrConnect)
      | Response code \<Rightarrow>
          if go_div code 100 \<noteq> 2 then
            (if code < 500 \<and> code \<noteq> 429 then (code, Some (ErrInvalidParams code))
             else (code, Some (ErrStatus code)))
          else (code, None))"

text \<open>
  The state of the retry loop: the local variables \<^verbatim>\<open>status\<close>, \<^verbatim>\<open>err\<close> and \<^verbatim>\<open>backoff\<close>
  (an int64 of nanoseconds, doubling with wrap-around), the number of requests issued so
  far and the durations slept.
\<close>

record write_state =
  ws_status :: int
  ws_err :: "err option"
  ws_backoff :: "64 word"
  ws_attempts :: nat
  ws_sleeps :: "64 word list"

function write_loop :: "transport \<Rightarrow> int \<Rightarrow> write_state \<Rightarrow> write_state" where
  "write_loop tr i s =
     (if i \<ge> 0 then
        (case doRequest (tr (ws_attempts s)) of
           (status, e) \<Rightarrow>
             if e = None \<or> status = 409 then
               s\<lparr>ws_status := status, ws_err := None, ws_attempts := Suc (ws_attempts s)\<rparr>
             else
               write_loop tr (i - 1)
                 (s\<lparr>ws_status := status, ws_err := e, ws_attempts := Suc (ws_attempts s),
                    ws_sleeps := ws_sleeps s @ [ws_backoff s],
                    ws_backoff := ws_backoff s * 2\<rparr>))
      else s)"
  by pat_completeness auto
termination
  by (relation "measure (\<lambda>(tr, i, s). nat (i + 1))") auto

text \<open>The test of the loop that leaves it: no error, or the status 409.\<close>

definition ends_retry :: "response \<Rightarrow> bool" where
  "ends_retry r = (case doRequest r of (status, e) \<Rightarrow> e = None \<or> status = 409)"

text \<open>
  The encoder (\<^verbatim>\<open>convertAndEncodeWriteQuery\<close>, in a file that is not part of the source)
  and the construction of the request (\<^verbatim>\<open>http.NewRequestWithContext\<close>, which fails for
  an address that does not parse) are parameters.
\<close>

record env =
  convertAndEncodeWriteQuery :: "WriteQuery list \<Rightarrow> err + string"
  newRequest :: "string \<Rightarrow> err option"

record write_result =
  w_err :: "err option"
  w_attempts :: nat
  w_recorded :: "int option"
  w_sleeps :: "64 word list"

text \<open>
  \<^verbatim>\<open>promStorage.write\<close> (\<open>write\<close> is a keyword of Isabelle, so the method keeps its
  receiver in its name): the value returned, the number of requests issued, the status recorded in
  the endpoint metrics (none when the request could not be built) and the sleeps. The
  headers set on the request do not influence the control flow and are left out.
\<close>

definition promStorage_write :: "env \<Rightarrow> Options \<Rightarrow> EndpointOptions \<Rightarrow> tenantKey \<Rightarrow> string \<Rightarrow> transport \<Rightarrow> write_result" where
  "promStorage_write ev opts endpoint tenant encoded tr =
     (case newRequest ev (address endpoint) of
        Some e \<Rightarrow> \<lparr>w_err = Some e, w_attempts = 0, w_recorded = None, w_sleeps = []\<rparr>
      | None \<Rightarrow>
          (let s = write_loop tr (retries opts)
                     \<lparr>ws_status = 0, ws_err = None, ws_backoff = 100000000,
                      ws_attempts = 0, ws_sleeps = []\<rparr>
           in \<lparr>w_err = ws_err s, w_attempts = ws_attempts s,
               w_recorded = Some (ws_status s), w_sleeps = ws_sleeps s\<rparr>))"

subsection \<open>writeBatch and Flush\<close>

text \<open>
  The counters of the storage that the modelled functions increment, and two traces: the
  batches handed to the encoder and the number of HTTP requests issued.
\<close>

record metrics =
  droppedWrites :: int
  batchWrite :: int
  batchWriteErr :: int
  tickWrite :: int
  noTenantFound :: int
  wrongTenant :: int
  encodeCalls :: "WriteQuery list list"
  httpRequests :: nat

text \<open>
  The tenant re-verification loop of \<^verbatim>\<open>writeBatch\<close>, with its two local variables
  \<^verbatim>\<open>correctWq\<close> and \<^verbatim>\<open>wrongTenants\<close> as the accumulator.
\<close>

fun recheck :: "Options \<Rightarrow> tenantKey \<Rightarrow> WriteQuery list \<Rightarrow> WriteQuery list \<times> int \<Rightarrow> WriteQuery list \<times> int" where
  "recheck opts tenant [] acc = acc"
| "recheck opts tenant (wq # rest) (correctWq, wrongTenants) =
     (if getTenant opts wq = tenant
      then recheck opts tenant rest (correctWq @ [wq], wrongTenants)
      else recheck opts tenant rest (correctWq, wrongTenants + 1))"

text \<open>
  \<^verbatim>\<open>writeBatch\<close> returns its error and the updated counters; indexing an empty endpoint
  list panics.
\<close>

definition writeBatch :: "env \<Rightarrow> Options \<Rightarrow> transport \<Rightarrow> tenantKey \<Rightarrow> WriteQuery list \<Rightarrow> metrics \<Rightarrow> panic + (err option \<times> metrics)" where
  "writeBatch ev opts tr tenant queries0 m =
     (case recheck opts tenant queries0 ([], 0) of
        (correctWq, wrongTenants) \<Rightarrow>
          (let m1 = m\<lparr>wrongTenant := wrongTenant m + wrongTenants\<rparr> in
           if length correctWq = 0 then Inr (None, m1)
           else
             (let m2 = m1\<lparr>encodeCalls := encodeCalls m1 @ [correctWq]\<rparr> in
              case convertAndEncodeWriteQuery ev correctWq of
                Inl e \<Rightarrow> Inr (Some e, m2\<lparr>batchWriteErr := batchWriteErr m2 + 1\<rparr>)
              | Inr encoded \<Rightarrow>
                  (case endpoints opts of
                     [] \<Rightarrow> Inl IndexOutOfRange
                   | endpoint # _ \<Rightarrow>
                       (let r = promStorage_write ev opts endpoint tenant encoded tr;
                            m3 = m2\<lparr>httpRequests := httpRequests m2 + w_attempts r\<rparr>
                        in if w_err r \<noteq> None
                           then Inr (w_err r, m3\<lparr>batchWriteErr := batchWriteErr m3 + 1\<rparr>)
                           else Inr (w_err r, m3))))))"

text \<open>\<^verbatim>\<open>Flush\<close> only logs the error of \<^verbatim>\<open>writeBatch\<close>.\<close>

definition Flush :: "env \<Rightarrow> Options \<Rightarrow> transport \<Rightarrow> WriteQueue \<Rightarrow> metrics \<Rightarrow> panic + (WriteQueue \<times> metrics)" where
  "Flush ev opts tr wq m =
     (case pop wq of
        Inl pn \<Rightarrow> Inl pn
      | Inr (data, wq') \<Rightarrow>
          (let size = int (length data) in
           if size = 0 then Inr (wq', m)
           else
             (case writeBatch ev opts tr (wq_t wq) data (m\<lparr>tickWrite := tickWrite m + size\<rparr>) of
                Inl pn \<Rightarrow> Inl pn
              | Inr (e, m') \<Rightarrow> Inr (wq', m'))))"

subsection \<open>NewStorage\<close>

text \<open>
  The map \<^verbatim>\<open>pendingQuery\<close> is a list of distinct keys with their queues; the order of the
  list is the order in which a \<^verbatim>\<open>range\<close> visits the map, which Go leaves open. The jobs
  handed to the worker pool are kept in the order of submission.
\<close>

datatype job = WriteBatchJob tenantKey "WriteQuery list" | FlushJob tenantKey

record promStorage =
  opts :: Options
  pendingQuery :: "(tenantKey \<times> WriteQueue) list"
  counters :: metrics
  jobs :: "job list"

text \<open>The loop of \<^verbatim>\<open>NewStorage\<close> over the tenant rules.\<close>

fun fixedTenants :: "int \<Rightarrow> TenantRule list \<Rightarrow> (tenantKey \<times> WriteQueue) list \<Rightarrow> panic + (tenantKey \<times> WriteQueue) list" where
  "fixedTenants qsize [] m = Inr m"
| "fixedTenants qsize (rule # rules) m =
     (let tenant = Tenant rule in
      if map_of m tenant = None then
        (case NewWriteQueue tenant qsize of
           Inl pn \<Rightarrow> Inl pn
         | Inr wq \<Rightarrow> fixedTenants qsize rules (m @ [(tenant, wq)]))
      else fixedTenants qsize rules m)"

definition zero_metrics :: metrics where
  "zero_metrics =
     \<lparr>droppedWrites = 0, batchWrite = 0, batchWriteErr = 0, tickWrite = 0,
      noTenantFound = 0, wrongTenant = 0, encodeCalls = [], httpRequests = 0\<rparr>"

text \<open>
  \<^verbatim>\<open>NewStorage\<close>: a panic, or the pair that Go returns, as \<open>Inl\<close> of the error or \<open>Inr\<close>
  of the storage.
\<close>

definition NewStorage :: "Options \<Rightarrow> panic + (err + promStorage)" where
  "NewStorage os =
     (case validateOptions os of
        Some e \<Rightarrow> Inr (Inl e)
      | None \<Rightarrow>
          (case NewWriteQueue (tenantDefault os) (queueSize os) of
             Inl pn \<Rightarrow> Inl pn
           | Inr wq \<Rightarrow>
               (case fixedTenants (queueSize os) (tenantRules os) [(tenantDefault os, wq)] of
                  Inl pn \<Rightarrow> Inl pn
                | Inr m \<Rightarrow>
                    Inr (Inr \<lparr>opts = os, pendingQuery = m, counters = zero_metrics, jobs = []\<rparr>))))"

subsection \<open>flushPendingQueues and the select loop of writeLoop\<close>

text \<open>
  The accumulator of \<^verbatim>\<open>flushPendingQueues\<close>: \<^verbatim>\<open>numWrites\<close>, the tenants whose queue got
  a \<^verbatim>\<open>Flush\<close> job, and the tenants for which the warning was logged. The queues are not
  touched while the loop runs: \<^verbatim>\<open>Len\<close> reads the same state each time.
\<close>

record flush_acc =
  numWrites :: int
  scheduled :: "tenantKey list"
  warned :: "tenantKey list"

fun flushPendingQueues :: "int \<Rightarrow> (tenantKey \<times> WriteQueue) list \<Rightarrow> flush_acc \<Rightarrow> flush_acc" where
  "flushPendingQueues minQueueSizeToFlush [] acc = acc"
| "flushPendingQueues minQueueSizeToFlush ((t, queue) # rest) acc =
     (if Len queue = 0 then flushPendingQueues minQueueSizeToFlush rest acc
      else if Len queue < minQueueSizeToFlush then
        flushPendingQueues minQueueSizeToFlush rest (acc\<lparr>warned := warned acc @ [t]\<rparr>)
      else
        flushPendingQueues minQueueSizeToFlush rest
          (acc\<lparr>numWrites := numWrites acc + Len queue, scheduled := scheduled acc @ [t]\<rparr>))"

definition flush_start :: flush_acc where
  "flush_start = \<lparr>numWrites = 0, scheduled = [], warned = []\<rparr>"

text \<open>Storing the new state of the queue that \<^verbatim>\<open>pendingQuery[t]\<close> points to.\<close>

fun set_queue :: "tenantKey \<Rightarrow> WriteQueue \<Rightarrow> (tenantKey \<times> WriteQueue) list \<Rightarrow> (tenantKey \<times> WriteQueue) list" where
  "set_queue t wq [] = []"
| "set_queue t wq ((k, v) # rest) =
     (if k = t then (k, wq) # rest else (k, v) # set_queue t wq rest)"

text \<open>
  What the write loop and the workers do, one event at a time: the loop receives from
  the channel (\<open>None\<close> is the nil that the closed channel yields), the loop receives a
  tick, or a worker runs the i-th job that is waiting, against a transport.
\<close>

datatype event = Recv "WriteQuery option" | Tick | RunJob nat transport

text \<open>The state of the loop is the storage and the local variable \<^verbatim>\<open>stop\<close>.\<close>

definition on_recv :: "WriteQuery option \<Rightarrow> promStorage \<times> bool \<Rightarrow> panic + (promStorage \<times> bool)" where
  "on_recv query st =
     (case st of (p, stop) \<Rightarrow>
        (case query of
           None \<Rightarrow> Inr (p, True)
         | Some q \<Rightarrow>
             (let t = getTenant (opts p) q in
              case map_of (pendingQuery p) t of
                None \<Rightarrow>
                  Inr (p\<lparr>counters := (counters p)\<lparr>noTenantFound := noTenantFound (counters p) + 1,
                                                 droppedWrites := droppedWrites (counters p) + 1\<rparr>\<rparr>,
                       stop)
              | Some wq \<Rightarrow>
                  (case Add wq q of
                     Inl pn \<Rightarrow> Inl pn
                   | Inr (None, wq') \<Rightarrow> Inr (p\<lparr>pendingQuery := set_queue t wq' (pendingQuery p)\<rparr>, stop)
                   | Inr (Some dataBatch, wq') \<Rightarrow>
                       Inr (p\<lparr>pendingQuery := set_queue t wq' (pendingQuery p),
                              counters := (counters p)\<lparr>batchWrite :=
                                 batchWrite (counters p) + int (length dataBatch)\<rparr>,
                              jobs := jobs p @ [WriteBatchJob t dataBatch]\<rparr>,
                            stop)))))"

definition on_tick :: "promStorage \<Rightarrow> promStorage" where
  "on_tick p =
     (let acc = flushPendingQueues (go_div (queueSize (opts p)) 10) (pendingQuery p) flush_start
      in p\<lparr>jobs := jobs p @ map FlushJob (scheduled acc)\<rparr>)"

text \<open>After the loop: the final drain, \<^verbatim>\<open>flushPendingQueues\<close> with the threshold 0.\<close>

definition drain :: "promStorage \<Rightarrow> promStorage" where
  "drain p =
     (let acc = flushPendingQueues 0 (pendingQuery p) flush_start
      in p\<lparr>jobs := jobs p @ map FlushJob (scheduled acc)\<rparr>)"

definition run_job :: "env \<Rightarrow> job \<Rightarrow> transport \<Rightarrow> promStorage \<Rightarrow> panic + promStorage" where
  "run_job ev j tr p =
     (case j of
        WriteBatchJob t dataBatch \<Rightarrow>
          (case writeBatch ev (opts p) tr t dataBatch (counters p) of
             Inl pn \<Rightarrow> Inl pn
           | Inr (e, m) \<Rightarrow> Inr (p\<lparr>counters := m\<rparr>))
      | FlushJob t \<Rightarrow>
          (case map_of (pendingQuery p) t of
             None \<Rightarrow> Inr p
           | Some wq \<Rightarrow>
               (case Flush ev (opts p) tr wq (counters p) of
                  Inl pn \<Rightarrow> Inl pn
                | Inr (wq', m) \<Rightarrow>
                    Inr (p\<lparr>pendingQuery := set_queue t wq' (pendingQuery p), counters := m\<rparr>))))"

definition step :: "env \<Rightarrow> event \<Rightarrow> promStorage \<times> bool \<Rightarrow> panic + (promStorage \<times> bool)" where
  "step ev e st =
     (case e of
        Recv query \<Rightarrow>
          (if snd st then Inr st
           else
             (case on_recv query st of
                Inl pn \<Rightarrow> Inl pn
              | Inr (p, stop) \<Rightarrow> if stop then Inr (drain p, stop) else Inr (p, stop)))
      | Tick \<Rightarrow> (if snd st then Inr st else Inr (on_tick (fst st), snd st))
      | RunJob i tr \<Rightarrow>
          (if i < length (jobs (fst st)) then
             (case run_job ev (jobs (fst st) ! i) tr
                     ((fst st)\<lparr>jobs := take i (jobs (fst st)) @ drop (Suc i) (jobs (fst st))\<rparr>) of
                Inl pn \<Rightarrow> Inl pn
              | Inr p \<Rightarrow> Inr (p, snd st))
           else Inr st))"

fun run :: "env \<Rightarrow> event list \<Rightarrow> promStorage \<times> bool \<Rightarrow> panic + (promStorage \<times> bool)" where
  "run ev [] st = Inr st"
| "run ev (e # es) st =
     (case step ev e st of
        Inl pn \<Rightarrow> Inl pn
      | Inr st' \<Rightarrow> run ev es st')"

text \<open>
  \<open>step\<close>: an event of the loop has no effect once the loop has left its \<^verbatim>\<open>select\<close>;
  the event that sets \<^verbatim>\<open>stop\<close> is followed at once by the drain. A worker takes its job
  out of the waiting jobs and runs it.
\<close>

text \<open>
  The start of \<^verbatim>\<open>writeLoop\<close>, which \<^verbatim>\<open>NewStorage\<close> launches in a goroutine through
  \<^verbatim>\<open>startAsync\<close> before it returns: \<^verbatim>\<open>time.NewTicker(*p.opts.tickDuration)\<close>. Reading
  through a nil pointer panics, and \<^verbatim>\<open>time.NewTicker\<close> of Go's library panics for a
  duration that is not positive. A panic in the goroutine ends the process. Otherwise the
  loop starts with \<^verbatim>\<open>stop\<close> false.
\<close>

definition writeLoop_start :: "promStorage \<Rightarrow> panic + (promStorage \<times> bool)" where
  "writeLoop_start p =
     (case tickDuration (opts p) of
        None \<Rightarrow> Inl NilPointerDereference
      | Some d \<Rightarrow> if d \<le> 0 then Inl NonPositiveTickerInterval else Inr (p, False))"

text \<open>\<^verbatim>\<open>writeLoop\<close> on a sequence of events: the ticker, then the events.\<close>

definition writeLoop :: "env \<Rightarrow> event list \<Rightarrow> promStorage \<Rightarrow> panic + (promStorage \<times> bool)" where
  "writeLoop ev es p =
     (case writeLoop_start p of
        Inl pn \<Rightarrow> Inl pn
      | Inr st \<Rightarrow> run ev es st)"

text \<open>A sequence of calls on one queue, for the invariant of its length.\<close>

datatype queue_op = OpAdd WriteQuery | OpPop | OpPopUnderLock | OpLen | OpFlush transport

definition queue_step :: "env \<Rightarrow> Options \<Rightarrow> queue_op \<Rightarrow> WriteQueue \<times> metrics \<Rightarrow> panic + (WriteQueue \<times> metrics)" where
  "queue_step ev os operation st =
     (case st of (wq, m) \<Rightarrow>
        (case operation of
           OpAdd q \<Rightarrow> (case Add wq q of Inl pn \<Rightarrow> Inl pn | Inr (b, wq') \<Rightarrow> Inr (wq', m))
         | OpPop \<Rightarrow> (case pop wq of Inl pn \<Rightarrow> Inl pn | Inr (b, wq') \<Rightarrow> Inr (wq', m))
         | OpPopUnderLock \<Rightarrow>
             (case popUnderLock wq of Inl pn \<Rightarrow> Inl pn | Inr (b, wq') \<Rightarrow> Inr (wq', m))
         | OpLen \<Rightarrow> Inr (wq, m)
         | OpFlush tr \<Rightarrow> Flush ev os tr wq m))"

fun queue_run :: "env \<Rightarrow> Options \<Rightarrow> queue_op list \<Rightarrow> WriteQueue \<times> metrics \<Rightarrow> panic + (WriteQueue \<times> metrics)" where
  "queue_run ev os [] st = Inr st"
| "queue_run ev os (operation # rest) st =
     (case queue_step ev os operation st of
        Inl pn \<Rightarrow> Inl pn
      | Inr st' \<Rightarrow> queue_run ev os rest st')"

text \<open>
  The invariant of the storage that \<^verbatim>\<open>NewStorage\<close> establishes: the options are fixed,
  there is an endpoint, the default tenant and the tenant of every rule have a queue, no
  queue has a negative capacity, and the two counters of the no-tenant branch are zero.
\<close>

definition storage_inv :: "Options \<Rightarrow> promStorage \<Rightarrow> bool" where
  "storage_inv os p \<longleftrightarrow>
     opts p = os \<and> endpoints os \<noteq> [] \<and>
     tenantDefault os \<in> fst ` set (pendingQuery p) \<and>
     Tenant ` set (tenantRules os) \<subseteq> fst ` set (pendingQuery p) \<and>
     (\<forall>kq \<in> set (pendingQuery p). 0 \<le> capacity (snd kq)) \<and>
     noTenantFound (counters p) = 0 \<and> droppedWrites (counters p) = 0"

subsection \<open>Sample inputs\<close>

text \<open>
  The configuration of the scenarios: one endpoint, an encoder and a request
  construction that succeed, and a matcher that accepts the tags holding a given pair.
\<close>

definition ex_endpoint :: EndpointOptions where
  "ex_endpoint =
     \<lparr>name = ''primary'', address = ''http://remote/api/v1/write'', apiToken = [],
      tenantHeader = ''X-Scope-OrgID'', otherHeaders = []\<rparr>"

definition ex_env :: env where
  "ex_env = \<lparr>convertAndEncodeWriteQuery = (\<lambda>qs. Inr []), newRequest = (\<lambda>a. None)\<rparr>"

definition has_tag :: "string \<Rightarrow> string \<Rightarrow> tags \<Rightarrow> bool" where
  "has_tag n v ts = ((n, v) \<in> set ts)"

definition ex_rules :: "TenantRule list" where
  "ex_rules =
     [\<lparr>Filter = has_tag ''team'' ''a'', Tenant = ''A''\<rparr>,
      \<lparr>Filter = has_tag ''team'' ''b'', Tenant = ''B''\<rparr>]"

definition ex_opts :: "int \<Rightarrow> int \<Rightarrow> int option \<Rightarrow> TenantRule list \<Rightarrow> Options" where
  "ex_opts qsize r tick rules =
     \<lparr>poolSize = 2, queueSize = qsize, retries = r, tickDuration = tick,
      endpoints = [ex_endpoint], tenantDefault = ''D'', tenantRules = rules\<rparr>"

definition ex_query :: "string \<Rightarrow> WriteQuery" where
  "ex_query team = \<lparr>Tags = [(''__name__'', ''x''), (''team'', team)],
                    DuplicateWrite = False, FromIngestor = False\<rparr>"

section \<open>Properties\<close>

subsection \<open>Go's division\<close>

lemma go_div_100: "go_div c 100 = 2 \<longleftrightarrow> 200 \<le> c \<and> c \<le> 299"
  unfolding go_div_def by (cases "c \<ge> 0") (auto simp: sgn_if)

lemma go_div_nonneg: "0 \<le> a \<Longrightarrow> 0 < b \<Longrightarrow> go_div a b = a div b"
  unfolding go_div_def by (auto simp: sgn_if)

subsection \<open>The retry loop\<close>

declare write_loop.simps [simp del]

lemma ends_retry_Response: "ends_retry (Response c) \<longleftrightarrow> (200 \<le> c \<and> c \<le> 299) \<or> c = 409"
  by (auto simp: ends_retry_def doRequest_def go_div_100)

lemma ends_retry_TransportError: "\<not> ends_retry TransportError"
  by (simp add: ends_retry_def doRequest_def)

lemma write_loop_neg: "i < 0 \<Longrightarrow> write_loop tr i s = s"
  by (subst write_loop.simps) simp

lemma write_loop_end:
  "0 \<le> i \<Longrightarrow> ends_retry (tr (ws_attempts s)) \<Longrightarrow>
   write_loop tr i s =
     s\<lparr>ws_status := fst (doRequest (tr (ws_attempts s))), ws_err := None,
       ws_attempts := Suc (ws_attempts s)\<rparr>"
  by (subst write_loop.simps) (auto simp: ends_retry_def split: prod.splits)

lemma write_loop_retry:
  "0 \<le> i \<Longrightarrow> \<not> ends_retry (tr (ws_attempts s)) \<Longrightarrow>
   write_loop tr i s =
     write_loop tr (i - 1)
       (s\<lparr>ws_status := fst (doRequest (tr (ws_attempts s))),
          ws_err := snd (doRequest (tr (ws_attempts s))),
          ws_attempts := Suc (ws_attempts s),
          ws_sleeps := ws_sleeps s @ [ws_backoff s],
          ws_backoff := ws_backoff s * 2\<rparr>)"
  by (subst write_loop.simps) (auto simp: ends_retry_def split: prod.splits)

lemma write_loop_attempts_bounds:
  "ws_attempts s \<le> ws_attempts (write_loop tr i s) \<and>
   ws_attempts (write_loop tr i s) \<le> ws_attempts s + nat (i + 1)"
proof (induction tr i s rule: write_loop.induct)
  case (1 tr i s)
  show ?case
  proof (cases "0 \<le> i")
    case False
    then show ?thesis by (simp add: write_loop_neg)
  next
    case True
    show ?thesis
    proof (cases "ends_retry (tr (ws_attempts s))")
      case True
      with \<open>0 \<le> i\<close> show ?thesis by (simp add: write_loop_end)
    next
      case False
      obtain st e where de: "doRequest (tr (ws_attempts s)) = (st, e)" by (cases "doRequest (tr (ws_attempts s))")
      from False de have ne: "\<not> (e = None \<or> st = 409)" by (simp add: ends_retry_def)
      have "nat (i - 1 + 1) + 1 = nat (i + 1)" using True by simp
      with "1.IH"[OF True de[symmetric] ne] True False de show ?thesis
        by (simp add: write_loop_retry)
    qed
  qed
qed

lemma write_loop_cases [case_names neg ends retry]:
  fixes i :: int and s :: write_state
  assumes "\<And>i s. i < 0 \<Longrightarrow> P i s"
    and "\<And>i s. 0 \<le> i \<Longrightarrow> ends_retry (tr (ws_attempts s)) \<Longrightarrow> P i s"
    and "\<And>i s. 0 \<le> i \<Longrightarrow> \<not> ends_retry (tr (ws_attempts s)) \<Longrightarrow>
           P (i - 1)
             (s\<lparr>ws_status := fst (doRequest (tr (ws_attempts s))),
                ws_err := snd (doRequest (tr (ws_attempts s))),
                ws_attempts := Suc (ws_attempts s),
                ws_sleeps := ws_sleeps s @ [ws_backoff s],
                ws_backoff := ws_backoff s * 2\<rparr>) \<Longrightarrow> P i s"
  shows "P i s"
proof (induction "nat (i + 1)" arbitrary: i s)
  case (0 i s)
  then have "i < 0" by simp
  then show ?case by (rule assms(1))
next
  case (Suc n i s)
  then have i: "0 \<le> i" and n: "n = nat (i - 1 + 1)" by simp_all
  show ?case
  proof (cases "ends_retry (tr (ws_attempts s))")
    case True
    with i show ?thesis by (rule assms(2))
  next
    case False
    from i False Suc.hyps(1)[OF n] show ?thesis by (rule assms(3))
  qed
qed

lemma write_loop_all_fail:
  "(\<forall>k. k < nat (i + 1) \<longrightarrow> \<not> ends_retry (tr (ws_attempts s + k))) \<Longrightarrow>
   ws_attempts (write_loop tr i s) = ws_attempts s + nat (i + 1) \<and>
   (0 \<le> i \<longrightarrow>
      ws_err (write_loop tr i s) = snd (doRequest (tr (ws_attempts s + nat i))) \<and>
      ws_status (write_loop tr i s) = fst (doRequest (tr (ws_attempts s + nat i))))"
proof (induction i s rule: write_loop_cases[where tr = tr])
  case (neg i s)
  then show ?case by (simp add: write_loop_neg)
next
  case (ends i s)
  from ends(1) have "0 < nat (i + 1)" by simp
  with ends(3) have "\<not> ends_retry (tr (ws_attempts s + 0))" by blast
  with ends(2) show ?case by simp
next
  case (retry i s)
  let ?s' = "s\<lparr>ws_status := fst (doRequest (tr (ws_attempts s))),
                ws_err := snd (doRequest (tr (ws_attempts s))),
                ws_attempts := Suc (ws_attempts s),
                ws_sleeps := ws_sleeps s @ [ws_backoff s],
                ws_backoff := ws_backoff s * 2\<rparr>"
  have shift: "\<forall>k. k < nat (i - 1 + 1) \<longrightarrow> \<not> ends_retry (tr (ws_attempts ?s' + k))"
  proof (intro allI impI)
    fix k assume "k < nat (i - 1 + 1)"
    then have "Suc k < nat (i + 1)" using retry(1) by simp
    with retry(4) have "\<not> ends_retry (tr (ws_attempts s + Suc k))" by blast
    then show "\<not> ends_retry (tr (ws_attempts ?s' + k))" by simp
  qed
  note ih = retry(3)[OF shift]
  have eq: "write_loop tr i s = write_loop tr (i - 1) ?s'"
    using retry(1,2) by (rule write_loop_retry)
  show ?case
  proof (cases "i = 0")
    case True
    then show ?thesis unfolding eq by (simp add: write_loop_neg)
  next
    case False
    define n where "n = nat (i - 1)"
    with False retry(1) have i_eq: "i = int (Suc n)" by simp
    have pm: "i - 1 = int n" "nat i = Suc n" "nat (i + 1) = Suc (Suc n)"
      using i_eq by simp_all
    have "0 \<le> i" by (rule retry(1))
    with ih show ?thesis unfolding eq pm by simp
  qed
qed

lemma write_loop_stops_at:
  "ws_attempts s \<le> j \<Longrightarrow> j < ws_attempts (write_loop tr i s) \<Longrightarrow> ends_retry (tr j) \<Longrightarrow>
   ws_attempts (write_loop tr i s) = Suc j \<and> ws_err (write_loop tr i s) = None \<and>
   ws_status (write_loop tr i s) = fst (doRequest (tr j))"
proof (induction i s rule: write_loop_cases[where tr = tr])
  case (neg i s)
  then show ?case by (simp add: write_loop_neg)
next
  case (ends i s)
  from ends(1,2) have eq: "write_loop tr i s =
     s\<lparr>ws_status := fst (doRequest (tr (ws_attempts s))), ws_err := None,
       ws_attempts := Suc (ws_attempts s)\<rparr>" by (rule write_loop_end)
  from ends(3,4) have "j = ws_attempts s" unfolding eq by simp
  then show ?case unfolding eq by simp
next
  case (retry i s)
  let ?s' = "s\<lparr>ws_status := fst (doRequest (tr (ws_attempts s))),
                ws_err := snd (doRequest (tr (ws_attempts s))),
                ws_attempts := Suc (ws_attempts s),
                ws_sleeps := ws_sleeps s @ [ws_backoff s],
                ws_backoff := ws_backoff s * 2\<rparr>"
  have eq: "write_loop tr i s = write_loop tr (i - 1) ?s'"
    using retry(1,2) by (rule write_loop_retry)
  from retry(2) retry(6) have "j \<noteq> ws_attempts s" by auto
  with retry(4) have "ws_attempts ?s' \<le> j" by simp
  from retry(3)[OF this] retry(5,6) show ?case unfolding eq by simp
qed

lemma write_loop_first_end:
  "k < nat (i + 1) \<Longrightarrow> ends_retry (tr (ws_attempts s + k)) \<Longrightarrow>
   (\<forall>j. j < k \<longrightarrow> \<not> ends_retry (tr (ws_attempts s + j))) \<Longrightarrow>
   ws_attempts (write_loop tr i s) = ws_attempts s + Suc k \<and> ws_err (write_loop tr i s) = None \<and>
   ws_status (write_loop tr i s) = fst (doRequest (tr (ws_attempts s + k)))"
proof (induction i s arbitrary: k rule: write_loop_cases[where tr = tr])
  case (neg i s)
  then show ?case by simp
next
  case (ends i s)
  then have "k = 0" by (cases k) auto
  with ends show ?case by (simp add: write_loop_end)
next
  case (retry i s)
  let ?s' = "s\<lparr>ws_status := fst (doRequest (tr (ws_attempts s))),
                ws_err := snd (doRequest (tr (ws_attempts s))),
                ws_attempts := Suc (ws_attempts s),
                ws_sleeps := ws_sleeps s @ [ws_backoff s],
                ws_backoff := ws_backoff s * 2\<rparr>"
  have eq: "write_loop tr i s = write_loop tr (i - 1) ?s'"
    using retry(1,2) by (rule write_loop_retry)
  from retry(2) retry(5) obtain k' where k: "k = Suc k'" by (cases k) auto
  have a: "k' < nat (i - 1 + 1)" using retry(4) k by simp
  have b: "ends_retry (tr (ws_attempts ?s' + k'))" using retry(5) k by simp
  have c: "\<forall>j. j < k' \<longrightarrow> \<not> ends_retry (tr (ws_attempts ?s' + j))"
  proof (intro allI impI)
    fix j assume "j < k'"
    then have "Suc j < k" using k by simp
    with retry(6) have "\<not> ends_retry (tr (ws_attempts s + Suc j))" by blast
    then show "\<not> ends_retry (tr (ws_attempts ?s' + j))" by simp
  qed
  from retry(3)[OF a b c] k show ?case unfolding eq by simp
qed

lemma write_loop_at_least_one:
  "0 \<le> i \<Longrightarrow> Suc (ws_attempts s) \<le> ws_attempts (write_loop tr i s)"
proof (cases "ends_retry (tr (ws_attempts s))")
  case True
  assume "0 \<le> i"
  with True show ?thesis by (simp add: write_loop_end)
next
  case False
  assume "0 \<le> i"
  with False show ?thesis
    using write_loop_attempts_bounds[of "s\<lparr>ws_status := fst (doRequest (tr (ws_attempts s))),
          ws_err := snd (doRequest (tr (ws_attempts s))),
          ws_attempts := Suc (ws_attempts s),
          ws_sleeps := ws_sleeps s @ [ws_backoff s],
          ws_backoff := ws_backoff s * 2\<rparr>" tr "i - 1"]
    by (simp add: write_loop_retry)
qed

lemma write_built:
  "newRequest ev (address endpoint) = None \<Longrightarrow>
   promStorage_write ev os endpoint tenant encoded tr =
     (let s = write_loop tr (retries os)
                \<lparr>ws_status = 0, ws_err = None, ws_backoff = 100000000,
                 ws_attempts = 0, ws_sleeps = []\<rparr>
      in \<lparr>w_err = ws_err s, w_attempts = ws_attempts s,
          w_recorded = Some (ws_status s), w_sleeps = ws_sleeps s\<rparr>)"
  by (simp add: promStorage_write_def)

lemma write_not_built:
  "newRequest ev (address endpoint) = Some e \<Longrightarrow>
   promStorage_write ev os endpoint tenant encoded tr =
     \<lparr>w_err = Some e, w_attempts = 0, w_recorded = None, w_sleeps = []\<rparr>"
  by (simp add: promStorage_write_def)

lemma failed_not_ends:
  "(case r of TransportError \<Rightarrow> True | Response c \<Rightarrow> \<not> (200 \<le> c \<and> c \<le> 299) \<and> c \<noteq> 409)
     \<longleftrightarrow> \<not> ends_retry r"
  by (cases r) (auto simp: ends_retry_Response ends_retry_TransportError)

lemma failed_err: "\<not> ends_retry r \<Longrightarrow> snd (doRequest r) \<noteq> None"
  by (cases "doRequest r") (auto simp: ends_retry_def)

subsection \<open>The number of attempts\<close>

text \<open>
  Claim C4. For a retry budget \<open>retries \<ge> 0\<close> (and a request that could be built),
  \<^verbatim>\<open>write\<close> never issues more than \<open>retries + 1\<close> requests, whatever the transport
  answers; when each of the first \<open>retries + 1\<close> answers is a failure (a transport error,
  or a status that is neither 2xx nor 409) it issues exactly \<open>retries + 1\<close> requests and
  returns an error; in particular so under a transport that always answers 5xx.
\<close>

theorem write_attempts:
  assumes r: "0 \<le> retries os" and built: "newRequest ev (address endpoint) = None"
  shows "w_attempts (promStorage_write ev os endpoint tenant encoded tr) \<le> nat (retries os) + 1 \<and>
    ((\<forall>k. k \<le> nat (retries os) \<longrightarrow>
        (case tr k of TransportError \<Rightarrow> True
         | Response c \<Rightarrow> \<not> (200 \<le> c \<and> c \<le> 299) \<and> c \<noteq> 409)) \<longrightarrow>
       w_attempts (promStorage_write ev os endpoint tenant encoded tr) = nat (retries os) + 1 \<and>
       w_err (promStorage_write ev os endpoint tenant encoded tr) \<noteq> None) \<and>
    ((\<forall>k. \<exists>c. tr k = Response c \<and> 500 \<le> c \<and> c \<le> 599) \<longrightarrow>
       w_attempts (promStorage_write ev os endpoint tenant encoded tr) = nat (retries os) + 1 \<and>
       w_err (promStorage_write ev os endpoint tenant encoded tr) \<noteq> None)"
proof -
  let ?s0 = "\<lparr>ws_status = 0, ws_err = None, ws_backoff = 100000000,
              ws_attempts = 0, ws_sleeps = []\<rparr>"
  let ?W = "promStorage_write ev os endpoint tenant encoded tr"
  have att: "w_attempts ?W = ws_attempts (write_loop tr (retries os) ?s0)"
    and er: "w_err ?W = ws_err (write_loop tr (retries os) ?s0)"
    using built by (simp_all add: write_built Let_def)
  have n1: "nat (retries os + 1) = nat (retries os) + 1" using r by simp
  have bound: "w_attempts ?W \<le> nat (retries os) + 1"
    using write_loop_attempts_bounds[of ?s0 tr "retries os"] att n1 by simp
  have allfail: "w_attempts ?W = nat (retries os) + 1 \<and> w_err ?W \<noteq> None"
    if nf: "\<forall>k. k \<le> nat (retries os) \<longrightarrow> \<not> ends_retry (tr k)"
  proof -
    from nf have "\<forall>k. k < nat (retries os + 1) \<longrightarrow> \<not> ends_retry (tr (ws_attempts ?s0 + k))"
      using n1 by simp
    from write_loop_all_fail[OF this] r n1
    have a: "ws_attempts (write_loop tr (retries os) ?s0) = nat (retries os) + 1"
      and e: "ws_err (write_loop tr (retries os) ?s0) = snd (doRequest (tr (nat (retries os))))"
      by simp_all
    from nf have "\<not> ends_retry (tr (nat (retries os)))" by simp
    then have "snd (doRequest (tr (nat (retries os)))) \<noteq> None" by (rule failed_err)
    with a e att er show ?thesis by simp
  qed
  have p2: "(\<forall>k. k \<le> nat (retries os) \<longrightarrow>
        (case tr k of TransportError \<Rightarrow> True
         | Response c \<Rightarrow> \<not> (200 \<le> c \<and> c \<le> 299) \<and> c \<noteq> 409)) \<longrightarrow>
       w_attempts ?W = nat (retries os) + 1 \<and> w_err ?W \<noteq> None"
    using allfail by (simp add: failed_not_ends)
  have p3: "(\<forall>k. \<exists>c. tr k = Response c \<and> 500 \<le> c \<and> c \<le> 599) \<longrightarrow>
       w_attempts ?W = nat (retries os) + 1 \<and> w_err ?W \<noteq> None"
  proof
    assume h: "\<forall>k. \<exists>c. tr k = Response c \<and> 500 \<le> c \<and> c \<le> 599"
    have "\<forall>k. k \<le> nat (retries os) \<longrightarrow> \<not> ends_retry (tr k)"
    proof (intro allI impI)
      fix k
      from h obtain c where "tr k = Response c" "500 \<le> c" "c \<le> 599" by blast
      then show "\<not> ends_retry (tr k)" by (simp add: ends_retry_Response)
    qed
    then show "w_attempts ?W = nat (retries os) + 1 \<and> w_err ?W \<noteq> None" by (rule allfail)
  qed
  from bound p2 p3 show ?thesis by blast
qed

lemma replay_const: "replay [] d k = d"
  by (simp add: replay_def)

theorem write_attempts_witness:
  "0 \<le> retries (ex_opts 4 3 (Some 1000000000) []) \<and>
   newRequest ex_env (address ex_endpoint) = None \<and>
   w_attempts (promStorage_write ex_env (ex_opts 4 3 (Some 1000000000) []) ex_endpoint ''D'' []
      (replay [] (Response 500))) = 4"
  using write_attempts[of "ex_opts 4 3 (Some 1000000000) []" ex_env ex_endpoint "''D''" "[]"
      "replay [] (Response 500)"]
  by (simp add: ex_opts_def ex_env_def replay_const)

subsection \<open>A 409 ends the retrying with success\<close>

lemma recheck_filter:
  "recheck os t qs (acc, n) =
     (acc @ filter (\<lambda>q. getTenant os q = t) qs,
      n + int (length (filter (\<lambda>q. getTenant os q \<noteq> t) qs)))"
  by (induction qs arbitrary: acc n) auto

lemma write_conflict:
  assumes "k < w_attempts (promStorage_write ev os endpoint tenant encoded tr)"
    and "tr k = Response 409"
  shows "w_attempts (promStorage_write ev os endpoint tenant encoded tr) = Suc k \<and>
         w_err (promStorage_write ev os endpoint tenant encoded tr) = None \<and>
         w_recorded (promStorage_write ev os endpoint tenant encoded tr) = Some 409"
proof (cases "newRequest ev (address endpoint)")
  case (Some e)
  with assms(1) show ?thesis by (simp add: write_not_built)
next
  case None
  let ?s0 = "\<lparr>ws_status = 0, ws_err = None, ws_backoff = 100000000,
              ws_attempts = 0, ws_sleeps = []\<rparr>"
  from None assms(1) have lt: "k < ws_attempts (write_loop tr (retries os) ?s0)"
    by (simp add: write_built Let_def)
  have e: "ends_retry (tr k)" using assms(2) by (simp add: ends_retry_Response)
  have "ws_attempts ?s0 \<le> k" by simp
  from write_loop_stops_at[OF this lt e] assms(2) None show ?thesis
    by (simp add: write_built Let_def doRequest_def go_div_100)
qed

text \<open>
  Claim C5. When some request that \<^verbatim>\<open>write\<close> issued was answered with the status 409,
  that request is the last one (the loop ends at the first such answer), \<^verbatim>\<open>write\<close>
  returns no error and records the status 409. The loop does get there: when the answer
  number \<open>k\<close> is 409, within the budget, and every answer before it is a failure, exactly
  \<open>k + 1\<close> requests are issued. And a \<^verbatim>\<open>writeBatch\<close> whose requests include one answered
  with 409 returns no error and leaves the counter \<^verbatim>\<open>batch_write_err\<close> as it was.
\<close>

theorem conflict_ends_retry:
  "(k < w_attempts (promStorage_write ev os endpoint tenant encoded tr) \<and> tr k = Response 409 \<longrightarrow>
      w_attempts (promStorage_write ev os endpoint tenant encoded tr) = Suc k \<and>
      w_err (promStorage_write ev os endpoint tenant encoded tr) = None \<and>
      w_recorded (promStorage_write ev os endpoint tenant encoded tr) = Some 409) \<and>
   (newRequest ev (address endpoint) = None \<and> int k \<le> retries os \<and> tr k = Response 409 \<and>
    (\<forall>j. j < k \<longrightarrow>
       (case tr j of TransportError \<Rightarrow> True
        | Response c \<Rightarrow> \<not> (200 \<le> c \<and> c \<le> 299) \<and> c \<noteq> 409)) \<longrightarrow>
      w_attempts (promStorage_write ev os endpoint tenant encoded tr) = Suc k \<and>
      w_err (promStorage_write ev os endpoint tenant encoded tr) = None) \<and>
   (writeBatch ev os tr tenant qs m = Inr (e, m') \<and>
    k < httpRequests m' - httpRequests m \<and> tr k = Response 409 \<longrightarrow>
      e = None \<and> batchWriteErr m' = batchWriteErr m \<and>
      httpRequests m' = httpRequests m + Suc k)"
proof (intro conjI impI)
  assume "k < w_attempts (promStorage_write ev os endpoint tenant encoded tr) \<and> tr k = Response 409"
  then have "w_attempts (promStorage_write ev os endpoint tenant encoded tr) = Suc k \<and>
      w_err (promStorage_write ev os endpoint tenant encoded tr) = None \<and>
      w_recorded (promStorage_write ev os endpoint tenant encoded tr) = Some 409"
    using write_conflict by blast
  then show "w_attempts (promStorage_write ev os endpoint tenant encoded tr) = Suc k"
    and "w_err (promStorage_write ev os endpoint tenant encoded tr) = None"
    and "w_recorded (promStorage_write ev os endpoint tenant encoded tr) = Some 409"
    by simp_all
next
  assume h: "newRequest ev (address endpoint) = None \<and> int k \<le> retries os \<and>
    tr k = Response 409 \<and>
    (\<forall>j. j < k \<longrightarrow>
       (case tr j of TransportError \<Rightarrow> True
        | Response c \<Rightarrow> \<not> (200 \<le> c \<and> c \<le> 299) \<and> c \<noteq> 409))"
  let ?s0 = "\<lparr>ws_status = 0, ws_err = None, ws_backoff = 100000000,
              ws_attempts = 0, ws_sleeps = []\<rparr>"
  from h have built: "newRequest ev (address endpoint) = None"
    and budget: "int k \<le> retries os" and c: "tr k = Response 409"
    and before: "\<forall>j. j < k \<longrightarrow>
       (case tr j of TransportError \<Rightarrow> True
        | Response c \<Rightarrow> \<not> (200 \<le> c \<and> c \<le> 299) \<and> c \<noteq> 409)"
    by blast+
  from budget have lt: "k < nat (retries os + 1)" by linarith
  from c have e: "ends_retry (tr (ws_attempts ?s0 + k))" by (simp add: ends_retry_Response)
  from before have f: "\<forall>j. j < k \<longrightarrow> \<not> ends_retry (tr (ws_attempts ?s0 + j))"
    by (simp add: failed_not_ends)
  from write_loop_first_end[OF lt e f] built
  show "w_attempts (promStorage_write ev os endpoint tenant encoded tr) = Suc k"
    and "w_err (promStorage_write ev os endpoint tenant encoded tr) = None"
    by (simp_all add: write_built Let_def)
next
  assume h: "writeBatch ev os tr tenant qs m = Inr (e, m') \<and>
    k < httpRequests m' - httpRequests m \<and> tr k = Response 409"
  then have wb: "writeBatch ev os tr tenant qs m = Inr (e, m')"
    and k: "k < httpRequests m' - httpRequests m" and c: "tr k = Response 409" by simp_all
  obtain kept wrong where rc: "recheck os tenant qs ([], 0) = (kept, wrong)"
    by (cases "recheck os tenant qs ([], 0)")
  have ne: "kept \<noteq> []"
  proof
    assume "kept = []"
    with wb rc have "httpRequests m' = httpRequests m" by (auto simp: writeBatch_def)
    with k show False by simp
  qed
  obtain encoded' where enc: "convertAndEncodeWriteQuery ev kept = Inr encoded'"
  proof (cases "convertAndEncodeWriteQuery ev kept")
    case (Inl x)
    with wb rc ne have "httpRequests m' = httpRequests m" by (auto simp: writeBatch_def Let_def)
    with k show ?thesis by simp
  next
    case (Inr y)
    then show ?thesis by (rule that)
  qed
  obtain ep rest where eps: "endpoints os = ep # rest"
  proof (cases "endpoints os")
    case Nil
    with wb rc ne enc show ?thesis by (simp add: writeBatch_def Let_def)
  next
    case (Cons a list)
    then show ?thesis by (rule that)
  qed
  let ?W = "promStorage_write ev os ep tenant encoded' tr"
  from wb rc ne enc eps have res: "e = w_err ?W"
    and hr: "httpRequests m' = httpRequests m + w_attempts ?W"
    and be: "batchWriteErr m' = (if w_err ?W \<noteq> None then batchWriteErr m + 1 else batchWriteErr m)"
    by (auto simp: writeBatch_def Let_def split: if_splits)
  from k hr have "k < w_attempts ?W" by simp
  from write_conflict[OF this c] res hr be
  show "e = None" and "batchWriteErr m' = batchWriteErr m"
    and "httpRequests m' = httpRequests m + Suc k" by simp_all
qed

theorem conflict_ends_retry_witness:
  "writeBatch ex_env (ex_opts 4 3 (Some 1000000000) [])
      (replay [Response 500, Response 500, Response 409] (Response 500)) ''D'' [ex_query ''c'']
      zero_metrics
    = Inr (None, zero_metrics\<lparr>encodeCalls := [[ex_query ''c'']], httpRequests := 3\<rparr>) \<and>
   replay [Response 500, Response 500, Response 409] (Response 500) 2 = Response 409 \<and>
   batchWriteErr (zero_metrics\<lparr>encodeCalls := [[ex_query ''c'']], httpRequests := 3\<rparr>) = 0 \<and>
   int 2 \<le> retries (ex_opts 4 3 (Some 1000000000) []) \<and>
   w_attempts (promStorage_write ex_env (ex_opts 4 3 (Some 1000000000) []) ex_endpoint ''D'' []
      (replay [Response 500, Response 500, Response 409] (Response 500))) = 3 \<and>
   w_err (promStorage_write ex_env (ex_opts 4 3 (Some 1000000000) []) ex_endpoint ''D'' []
      (replay [Response 500, Response 500, Response 409] (Response 500))) = None"
proof -
  let ?tr = "replay [Response 500, Response 500, Response 409] (Response 500)"
  let ?os = "ex_opts 4 3 (Some 1000000000) []"
  have t2: "?tr 2 = Response 409" by (simp add: replay_def)
  have e0: "\<not> ends_retry (?tr 0)" and e1: "\<not> ends_retry (?tr (Suc 0))"
    and e2: "ends_retry (?tr (Suc (Suc 0)))"
    by (simp_all add: replay_def ends_retry_Response)
  have wb: "writeBatch ex_env ?os ?tr ''D'' [ex_query ''c'']
      zero_metrics
    = Inr (None, zero_metrics\<lparr>encodeCalls := [[ex_query ''c'']], httpRequests := 3\<rparr>)"
    using e0 e1 e2
    by (simp add: writeBatch_def getTenant_def ex_opts_def ex_env_def Let_def zero_metrics_def
        promStorage_write_def write_loop_retry write_loop_end)
  have built: "newRequest ex_env (address ex_endpoint) = None" by (simp add: ex_env_def)
  have budget: "int 2 \<le> retries ?os" by (simp add: ex_opts_def)
  have before: "\<forall>j. j < 2 \<longrightarrow>
       (case ?tr j of TransportError \<Rightarrow> True
        | Response c \<Rightarrow> \<not> (200 \<le> c \<and> c \<le> 299) \<and> c \<noteq> 409)"
  proof (intro allI impI)
    fix j :: nat assume "j < 2"
    then consider "j = 0" | "j = 1" by linarith
    then show "case ?tr j of TransportError \<Rightarrow> True
        | Response c \<Rightarrow> \<not> (200 \<le> c \<and> c \<le> 299) \<and> c \<noteq> 409"
      by cases (simp_all add: replay_def)
  qed
  note inst = conflict_ends_retry[of 2 ex_env ?os ex_endpoint "''D''" "[]"
      ?tr "[ex_query ''c'']" zero_metrics None
      "zero_metrics\<lparr>encodeCalls := [[ex_query ''c'']], httpRequests := 3\<rparr>"]
  from inst built budget t2 before
  have a: "w_attempts (promStorage_write ex_env ?os ex_endpoint ''D'' [] ?tr) = Suc 2 \<and>
        w_err (promStorage_write ex_env ?os ex_endpoint ''D'' [] ?tr) = None"
    by blast
  have lt: "2 < httpRequests (zero_metrics\<lparr>encodeCalls := [[ex_query ''c'']], httpRequests := 3\<rparr>)
      - httpRequests zero_metrics"
    by (simp add: zero_metrics_def)
  from inst wb lt t2
  have b: "batchWriteErr (zero_metrics\<lparr>encodeCalls := [[ex_query ''c'']], httpRequests := 3\<rparr>) =
          batchWriteErr zero_metrics"
    by blast
  note a b
  with wb t2 budget show ?thesis by (simp add: zero_metrics_def)
qed

subsection \<open>A 4xx answer does not end the retrying\<close>

text \<open>
  Against claim C1: with one retry and the answers 400 and then 200, \<^verbatim>\<open>write\<close> issues
  two requests and returns no error, although the first answer is classified as an
  invalid-params error.
\<close>

theorem client_error_is_retried_counterexample:
  "w_attempts (promStorage_write ex_env (ex_opts 4 1 (Some 1000000000) []) ex_endpoint ''D'' []
      (replay [Response 400] (Response 200))) = 2 \<and>
   w_err (promStorage_write ex_env (ex_opts 4 1 (Some 1000000000) []) ex_endpoint ''D'' []
      (replay [Response 400] (Response 200))) = None \<and>
   doRequest (replay [Response 400] (Response 200) 0) = (400, Some (ErrInvalidParams 400))"
proof -
  let ?tr = "replay [Response 400] (Response 200)"
  have e0: "\<not> ends_retry (?tr 0)" and e1: "ends_retry (?tr (Suc 0))"
    by (simp_all add: replay_def ends_retry_Response)
  have d: "doRequest (?tr 0) = (400, Some (ErrInvalidParams 400))"
    by (simp add: replay_def doRequest_def go_div_100)
  from e0 e1 d show ?thesis
    by (simp add: ex_opts_def ex_env_def Let_def promStorage_write_def
        write_loop_retry write_loop_end)
qed

lemma client_error_classified:
  "400 \<le> c \<Longrightarrow> c \<le> 499 \<Longrightarrow> c \<noteq> 429 \<Longrightarrow>
   doRequest (Response c) = (c, Some (ErrInvalidParams c))"
  by (simp add: doRequest_def go_div_100)

text \<open>
  Claim C1, as amended. A 4xx status other than 429 is classified by \<^verbatim>\<open>doRequest\<close> as an
  invalid-params error, but the loop of \<^verbatim>\<open>write\<close> only ends early on no error or on
  409. For a retry budget \<open>retries \<ge> 0\<close> and a first answer in 400..499 other than 429 and
  409: \<^verbatim>\<open>write\<close> issues exactly one request only when \<open>retries = 0\<close>, at least two
  when \<open>retries \<ge> 1\<close>, and when each of the first \<open>retries + 1\<close> answers is such a
  status it issues \<open>retries + 1\<close> requests and returns the invalid-params error of the
  last answer.
\<close>

theorem client_error_is_retried:
  assumes r: "0 \<le> retries os" and built: "newRequest ev (address endpoint) = None"
    and first: "tr 0 = Response c" and c: "400 \<le> c" "c \<le> 499" "c \<noteq> 429" "c \<noteq> 409"
  shows "doRequest (tr 0) = (c, Some (ErrInvalidParams c)) \<and>
    (w_attempts (promStorage_write ev os endpoint tenant encoded tr) = 1 \<longleftrightarrow> retries os = 0) \<and>
    (1 \<le> retries os \<longrightarrow> 2 \<le> w_attempts (promStorage_write ev os endpoint tenant encoded tr)) \<and>
    ((\<forall>k. k \<le> nat (retries os) \<longrightarrow>
        (\<exists>d. tr k = Response d \<and> 400 \<le> d \<and> d \<le> 499 \<and> d \<noteq> 429 \<and> d \<noteq> 409)) \<longrightarrow>
       w_attempts (promStorage_write ev os endpoint tenant encoded tr) = nat (retries os) + 1 \<and>
       (\<exists>d. tr (nat (retries os)) = Response d \<and>
            w_err (promStorage_write ev os endpoint tenant encoded tr) = Some (ErrInvalidParams d)))"
proof -
  let ?s0 = "\<lparr>ws_status = 0, ws_err = None, ws_backoff = 100000000,
              ws_attempts = 0, ws_sleeps = []\<rparr>"
  let ?s1 = "?s0\<lparr>ws_status := fst (doRequest (tr (ws_attempts ?s0))),
          ws_err := snd (doRequest (tr (ws_attempts ?s0))),
          ws_attempts := Suc (ws_attempts ?s0),
          ws_sleeps := ws_sleeps ?s0 @ [ws_backoff ?s0],
          ws_backoff := ws_backoff ?s0 * 2\<rparr>"
  let ?W = "promStorage_write ev os endpoint tenant encoded tr"
  have att: "w_attempts ?W = ws_attempts (write_loop tr (retries os) ?s0)"
    and er: "w_err ?W = ws_err (write_loop tr (retries os) ?s0)"
    using built by (simp_all add: write_built Let_def)
  have cls: "doRequest (tr 0) = (c, Some (ErrInvalidParams c))"
    using first c by (simp add: client_error_classified)
  have ne: "\<not> ends_retry (tr (ws_attempts ?s0))"
    using first c by (simp add: ends_retry_Response)
  have unroll: "write_loop tr (retries os) ?s0 = write_loop tr (retries os - 1) ?s1"
    using r ne by (rule write_loop_retry)
  have one: "w_attempts ?W = 1 \<longleftrightarrow> retries os = 0"
  proof (cases "retries os = 0")
    case True
    then show ?thesis unfolding att unroll by (simp add: write_loop_neg)
  next
    case False
    with r have "0 \<le> retries os - 1" by simp
    from write_loop_at_least_one[OF this, of ?s1 tr] False show ?thesis
      unfolding att unroll by simp
  qed
  have two: "1 \<le> retries os \<longrightarrow> 2 \<le> w_attempts ?W"
  proof
    assume "1 \<le> retries os"
    then have "0 \<le> retries os - 1" by simp
    from write_loop_at_least_one[OF this, of ?s1 tr] show "2 \<le> w_attempts ?W"
      unfolding att unroll by simp
  qed
  have all4: "(\<forall>k. k \<le> nat (retries os) \<longrightarrow>
        (\<exists>d. tr k = Response d \<and> 400 \<le> d \<and> d \<le> 499 \<and> d \<noteq> 429 \<and> d \<noteq> 409)) \<longrightarrow>
       w_attempts ?W = nat (retries os) + 1 \<and>
       (\<exists>d. tr (nat (retries os)) = Response d \<and> w_err ?W = Some (ErrInvalidParams d))"
  proof
    assume h: "\<forall>k. k \<le> nat (retries os) \<longrightarrow>
        (\<exists>d. tr k = Response d \<and> 400 \<le> d \<and> d \<le> 499 \<and> d \<noteq> 429 \<and> d \<noteq> 409)"
    have n1: "nat (retries os + 1) = nat (retries os) + 1" using r by simp
    have "\<forall>k. k < nat (retries os + 1) \<longrightarrow> \<not> ends_retry (tr (ws_attempts ?s0 + k))"
    proof (intro allI impI)
      fix k assume "k < nat (retries os + 1)"
      with n1 have "k \<le> nat (retries os)" by simp
      with h obtain d where "tr k = Response d" "400 \<le> d" "d \<le> 499" "d \<noteq> 409" by blast
      then show "\<not> ends_retry (tr (ws_attempts ?s0 + k))" by (simp add: ends_retry_Response)
    qed
    from write_loop_all_fail[OF this] r n1
    have a: "ws_attempts (write_loop tr (retries os) ?s0) = nat (retries os) + 1"
      and e: "ws_err (write_loop tr (retries os) ?s0) = snd (doRequest (tr (nat (retries os))))"
      by simp_all
    from h obtain d where d: "tr (nat (retries os)) = Response d" "400 \<le> d" "d \<le> 499" "d \<noteq> 429"
      by blast
    then have "snd (doRequest (tr (nat (retries os)))) = Some (ErrInvalidParams d)"
      by (simp add: client_error_classified)
    with a e att er d(1) show "w_attempts ?W = nat (retries os) + 1 \<and>
       (\<exists>d. tr (nat (retries os)) = Response d \<and> w_err ?W = Some (ErrInvalidParams d))"
      by simp
  qed
  from cls one two all4 show ?thesis by blast
qed

theorem client_error_is_retried_witness:
  "0 \<le> retries (ex_opts 4 2 (Some 1000000000) []) \<and>
   newRequest ex_env (address ex_endpoint) = None \<and>
   replay [] (Response 404) 0 = Response 404 \<and>
   w_attempts (promStorage_write ex_env (ex_opts 4 2 (Some 1000000000) []) ex_endpoint ''D'' []
      (replay [] (Response 404))) = 3 \<and>
   w_err (promStorage_write ex_env (ex_opts 4 2 (Some 1000000000) []) ex_endpoint ''D'' []
      (replay [] (Response 404))) = Some (ErrInvalidParams 404)"
  using client_error_is_retried[of "ex_opts 4 2 (Some 1000000000) []" ex_env ex_endpoint
      "replay [] (Response 404)" 404 "''D''" "[]"]
  by (simp add: ex_opts_def ex_env_def replay_const)

subsection \<open>The queue\<close>

lemma popUnderLock_ok:
  "0 \<le> capacity wq \<Longrightarrow> popUnderLock wq = Inr (queries wq, wq\<lparr>queries := []\<rparr>)"
  by (simp add: popUnderLock_def make_queries_def)

lemma popUnderLock_panic:
  "capacity wq < 0 \<Longrightarrow> popUnderLock wq = Inl MakeSliceCapOutOfRange"
  by (simp add: popUnderLock_def make_queries_def)

lemma pop_ok: "0 \<le> capacity wq \<Longrightarrow> pop wq = Inr (queries wq, wq\<lparr>queries := []\<rparr>)"
  by (simp add: pop_def popUnderLock_ok)

lemma NewWriteQueue_capacity:
  "NewWriteQueue t c = Inr wq \<Longrightarrow> 0 \<le> capacity wq \<and> capacity wq = c \<and> queries wq = []"
  by (auto simp: NewWriteQueue_def make_queries_def split: if_splits)

lemma Add_full:
  "0 \<le> capacity wq \<Longrightarrow> capacity wq \<le> Len wq \<Longrightarrow>
   Add wq q = Inr (Some (queries wq), wq\<lparr>queries := []\<rparr>)"
  by (simp add: Add_def Len_def popUnderLock_ok)

lemma Add_room:
  "Len wq < capacity wq \<Longrightarrow> Add wq q = Inr (None, wq\<lparr>queries := queries wq @ [q]\<rparr>)"
  by (simp add: Add_def Len_def)

text \<open>
  Claim C2. For a queue whose capacity is not negative (\<^verbatim>\<open>NewWriteQueue\<close> returns no
  other, and no method changes the capacity) and every query \<open>q\<close>: when the length has reached the
  capacity, \<^verbatim>\<open>Add\<close> returns exactly the contents of the buffer and leaves the buffer
  empty, with the tenant and the capacity as they were; \<open>q\<close> is in neither (the result
  is the same for every incoming query). When the length is below the capacity, \<^verbatim>\<open>Add\<close>
  appends \<open>q\<close> and returns \<^verbatim>\<open>nil\<close>.
\<close>

theorem Add_returns_batch_or_appends:
  assumes "0 \<le> capacity wq"
  shows "(capacity wq \<le> Len wq \<longrightarrow>
            Add wq q = Inr (Some (queries wq), wq\<lparr>queries := []\<rparr>) \<and>
            (\<forall>q'. Add wq q' = Add wq q)) \<and>
         (Len wq < capacity wq \<longrightarrow>
            Add wq q = Inr (None, wq\<lparr>queries := queries wq @ [q]\<rparr>))"
  using assms by (simp add: Add_full Add_room)

theorem Add_returns_batch_or_appends_witness:
  "Add \<lparr>wq_t = ''D'', capacity = 2, queries = [ex_query ''a'', ex_query ''b'']\<rparr> (ex_query ''c'')
     = Inr (Some [ex_query ''a'', ex_query ''b''], \<lparr>wq_t = ''D'', capacity = 2, queries = []\<rparr>) \<and>
   Add \<lparr>wq_t = ''D'', capacity = 2, queries = [ex_query ''a'']\<rparr> (ex_query ''c'')
     = Inr (None, \<lparr>wq_t = ''D'', capacity = 2, queries = [ex_query ''a'', ex_query ''c'']\<rparr>)"
  using Add_returns_batch_or_appends[of
      "\<lparr>wq_t = ''D'', capacity = 2, queries = [ex_query ''a'', ex_query ''b'']\<rparr>" "ex_query ''c''"]
    Add_returns_batch_or_appends[of
      "\<lparr>wq_t = ''D'', capacity = 2, queries = [ex_query ''a'']\<rparr>" "ex_query ''c''"]
  by (simp add: Len_def)

lemma writeBatch_returns:
  "endpoints os \<noteq> [] \<Longrightarrow> \<exists>e m'. writeBatch ev os tr tenant qs m = Inr (e, m')"
  by (cases "endpoints os")
     (auto simp: writeBatch_def Let_def split: prod.splits sum.splits list.splits)

lemma Flush_queue:
  "Flush ev os tr wq m = Inr (wq', m') \<Longrightarrow> 0 \<le> capacity wq \<and> wq' = wq\<lparr>queries := []\<rparr>"
proof (cases "0 \<le> capacity wq")
  case True
  assume "Flush ev os tr wq m = Inr (wq', m')"
  with True show ?thesis
    by (auto simp: Flush_def pop_ok Let_def split: if_splits sum.splits prod.splits)
next
  case False
  assume "Flush ev os tr wq m = Inr (wq', m')"
  with False show ?thesis by (simp add: Flush_def pop_def popUnderLock_panic)
qed

lemma Flush_returns:
  assumes "0 \<le> capacity wq" and "endpoints os \<noteq> []"
  shows "\<exists>wq' m'. Flush ev os tr wq m = Inr (wq', m')"
proof (cases "queries wq = []")
  case True
  with assms(1) show ?thesis by (simp add: Flush_def pop_ok)
next
  case False
  from writeBatch_returns[OF assms(2)] obtain e m' where
    "writeBatch ev os tr (wq_t wq) (queries wq)
       (m\<lparr>tickWrite := tickWrite m + int (length (queries wq))\<rparr>) = Inr (e, m')"
    by blast
  with assms(1) False show ?thesis by (simp add: Flush_def pop_ok Let_def)
qed

lemma queue_step_inv:
  assumes "0 \<le> capacity wq" and "Len wq \<le> capacity wq"
    and "queue_step ev os operation (wq, m) = Inr (wq', m')"
  shows "capacity wq' = capacity wq \<and> Len wq' \<le> capacity wq'"
proof (cases operation)
  case (OpAdd q)
  show ?thesis
  proof (cases "capacity wq \<le> Len wq")
    case True
    with assms OpAdd show ?thesis by (auto simp: queue_step_def Add_full Len_def)
  next
    case False
    with assms OpAdd show ?thesis by (auto simp: queue_step_def Add_room Len_def)
  qed
next
  case OpPop
  with assms show ?thesis by (auto simp: queue_step_def pop_ok Len_def)
next
  case OpPopUnderLock
  with assms show ?thesis by (auto simp: queue_step_def popUnderLock_ok Len_def)
next
  case OpLen
  with assms show ?thesis by (auto simp: queue_step_def)
next
  case (OpFlush tr)
  with assms(3) have "Flush ev os tr wq m = Inr (wq', m')" by (simp add: queue_step_def)
  from Flush_queue[OF this] assms(1) show ?thesis by (simp add: Len_def)
qed

lemma queue_step_returns:
  assumes "0 \<le> capacity wq" and "endpoints os \<noteq> []"
  shows "\<exists>wq' m'. queue_step ev os operation (wq, m) = Inr (wq', m')"
proof (cases operation)
  case (OpAdd q)
  with assms(1) show ?thesis
    by (cases "capacity wq \<le> Len wq") (simp_all add: queue_step_def Add_full Add_room)
next
  case OpPop
  with assms(1) show ?thesis by (simp add: queue_step_def pop_ok)
next
  case OpPopUnderLock
  with assms(1) show ?thesis by (simp add: queue_step_def popUnderLock_ok)
next
  case OpLen
  then show ?thesis by (simp add: queue_step_def)
next
  case (OpFlush tr)
  with Flush_returns[OF assms] show ?thesis by (simp add: queue_step_def)
qed

lemma queue_run_inv:
  "0 \<le> capacity wq \<Longrightarrow> Len wq \<le> capacity wq \<Longrightarrow>
   queue_run ev os ops (wq, m) = Inr (wq', m') \<Longrightarrow>
   capacity wq' = capacity wq \<and> Len wq' \<le> capacity wq'"
proof (induction ops arbitrary: wq m)
  case Nil
  then show ?case by simp
next
  case (Cons operation ops)
  from Cons.prems(3) obtain wq1 m1 where
    st: "queue_step ev os operation (wq, m) = Inr (wq1, m1)"
    and rest: "queue_run ev os ops (wq1, m1) = Inr (wq', m')"
    by (auto split: sum.splits)
  from queue_step_inv[OF Cons.prems(1,2) st]
  have c: "capacity wq1 = capacity wq" and l: "Len wq1 \<le> capacity wq1" by simp_all
  from c Cons.prems(1) have "0 \<le> capacity wq1" by simp
  from Cons.IH[OF this l rest] c show ?case by simp
qed

lemma queue_run_returns:
  "0 \<le> capacity wq \<Longrightarrow> Len wq \<le> capacity wq \<Longrightarrow> endpoints os \<noteq> [] \<Longrightarrow>
   \<exists>wq' m'. queue_run ev os ops (wq, m) = Inr (wq', m')"
proof (induction ops arbitrary: wq m)
  case Nil
  then show ?case by simp
next
  case (Cons operation ops)
  from queue_step_returns[OF Cons.prems(1,3)] obtain wq1 m1 where
    st: "queue_step ev os operation (wq, m) = Inr (wq1, m1)" by blast
  from queue_step_inv[OF Cons.prems(1,2) st]
  have c: "capacity wq1 = capacity wq" and l: "Len wq1 \<le> capacity wq1" by simp_all
  from c Cons.prems(1) have "0 \<le> capacity wq1" by simp
  from Cons.IH[OF this l Cons.prems(3)] st show ?case by simp
qed

text \<open>
  Claim C7. A queue built by \<^verbatim>\<open>NewWriteQueue\<close> with a capacity \<open>c \<ge> 1\<close> has
  \<open>0 \<le> Len \<le> c\<close>, and so has the queue after every sequence of calls of \<^verbatim>\<open>Add\<close>,
  \<^verbatim>\<open>pop\<close>, \<^verbatim>\<open>popUnderLock\<close>, \<^verbatim>\<open>Len\<close> and \<^verbatim>\<open>Flush\<close>; with an endpoint configured
  every such sequence runs to its end without a panic.
\<close>

theorem queue_length_invariant:
  assumes "1 \<le> c"
  shows "\<exists>wq0. NewWriteQueue t c = Inr wq0 \<and> 0 \<le> Len wq0 \<and> Len wq0 \<le> c \<and>
     (\<forall>ops m wq m'. queue_run ev os ops (wq0, m) = Inr (wq, m') \<longrightarrow>
         0 \<le> Len wq \<and> Len wq \<le> c) \<and>
     (endpoints os \<noteq> [] \<longrightarrow>
        (\<forall>ops m. \<exists>wq m'. queue_run ev os ops (wq0, m) = Inr (wq, m')))"
proof -
  let ?wq0 = "\<lparr>wq_t = t, capacity = c, queries = []\<rparr>"
  have new: "NewWriteQueue t c = Inr ?wq0"
    using assms by (simp add: NewWriteQueue_def make_queries_def)
  have c0: "0 \<le> capacity ?wq0" and l0: "Len ?wq0 \<le> capacity ?wq0"
    using assms by (simp_all add: Len_def)
  have inv: "0 \<le> Len wq \<and> Len wq \<le> c"
    if "queue_run ev os ops (?wq0, m) = Inr (wq, m')" for ops m wq m'
    using queue_run_inv[OF c0 l0 that] by (simp add: Len_def)
  have tot: "\<exists>wq m'. queue_run ev os ops (?wq0, m) = Inr (wq, m')"
    if "endpoints os \<noteq> []" for ops m
    using queue_run_returns[OF c0 l0 that] by blast
  from new l0 inv tot show ?thesis by (auto simp: Len_def)
qed

theorem queue_length_invariant_witness:
  "(1::int) \<le> 2 \<and>
   NewWriteQueue ''D'' 2 = Inr \<lparr>wq_t = ''D'', capacity = 2, queries = []\<rparr> \<and>
   queue_run ex_env (ex_opts 2 0 (Some 1000000000) [])
      [OpAdd (ex_query ''a''), OpAdd (ex_query ''b''), OpLen, OpAdd (ex_query ''c''),
       OpAdd (ex_query ''d''), OpPop, OpAdd (ex_query ''e''), OpFlush (replay [] (Response 200))]
      (\<lparr>wq_t = ''D'', capacity = 2, queries = []\<rparr>, zero_metrics)
     = Inr (\<lparr>wq_t = ''D'', capacity = 2, queries = []\<rparr>,
            zero_metrics\<lparr>tickWrite := 1, wrongTenant := 0, encodeCalls := [[ex_query ''e'']],
                         httpRequests := 1\<rparr>)"
proof -
  have e0: "ends_retry (replay [] (Response 200) 0)"
    by (simp add: replay_def ends_retry_Response)
  have run: "queue_run ex_env (ex_opts 2 0 (Some 1000000000) [])
      [OpAdd (ex_query ''a''), OpAdd (ex_query ''b''), OpLen, OpAdd (ex_query ''c''),
       OpAdd (ex_query ''d''), OpPop, OpAdd (ex_query ''e''), OpFlush (replay [] (Response 200))]
      (\<lparr>wq_t = ''D'', capacity = 2, queries = []\<rparr>, zero_metrics)
     = Inr (\<lparr>wq_t = ''D'', capacity = 2, queries = []\<rparr>,
            zero_metrics\<lparr>tickWrite := 1, wrongTenant := 0, encodeCalls := [[ex_query ''e'']],
                         httpRequests := 1\<rparr>)"
    using e0
    by (simp add: queue_step_def Add_def popUnderLock_def pop_def make_queries_def Flush_def
        writeBatch_def getTenant_def ex_opts_def ex_env_def Let_def zero_metrics_def
        promStorage_write_def write_loop_end)
  from queue_length_invariant[of 2 "''D''" ex_env "ex_opts 2 0 (Some 1000000000) []"] run
  show ?thesis by (simp add: NewWriteQueue_def make_queries_def)
qed

subsection \<open>Startup validation\<close>

lemma fixedTenants_returns:
  "0 \<le> qsize \<Longrightarrow> \<exists>m'. fixedTenants qsize rules m = Inr m'"
  by (induction rules arbitrary: m) (auto simp: Let_def NewWriteQueue_def make_queries_def)

lemma validateOptions_None:
  "validateOptions os = None \<longleftrightarrow>
     \<not> (poolSize os < 1 \<or> queueSize os < 1 \<or> retries os < 0 \<or> tickDuration os = None \<or>
        endpoints os = [])"
  by (simp add: validateOptions_def)

lemma NewStorage_error:
  "validateOptions os = Some e \<Longrightarrow> NewStorage os = Inr (Inl e)"
  by (simp add: NewStorage_def)

lemma NewStorage_ok:
  assumes "validateOptions os = None"
  shows "\<exists>m. fixedTenants (queueSize os) (tenantRules os)
               [(tenantDefault os, \<lparr>wq_t = tenantDefault os, capacity = queueSize os, queries = []\<rparr>)]
             = Inr m \<and>
             NewStorage os = Inr (Inr \<lparr>opts = os, pendingQuery = m, counters = zero_metrics, jobs = []\<rparr>)"
proof -
  from assms have q: "0 \<le> queueSize os" by (simp add: validateOptions_None)
  from fixedTenants_returns[OF q] obtain m where
    "fixedTenants (queueSize os) (tenantRules os)
       [(tenantDefault os, \<lparr>wq_t = tenantDefault os, capacity = queueSize os, queries = []\<rparr>)]
     = Inr m" by blast
  with assms q show ?thesis
    by (simp add: NewStorage_def NewWriteQueue_def make_queries_def)
qed

lemma NewStorage_opts:
  "NewStorage os = Inr (Inr s) \<Longrightarrow> validateOptions os = None \<and> opts s = os"
proof -
  assume a: "NewStorage os = Inr (Inr s)"
  have v: "validateOptions os = None"
  proof (cases "validateOptions os")
    case (Some e)
    with a show ?thesis by (simp add: NewStorage_error)
  qed simp
  from NewStorage_ok[OF v] a have "opts s = os" by auto
  with v show ?thesis by simp
qed

text \<open>
  What the validation does for the configurations whose \<^verbatim>\<open>tickDuration\<close> is not set or
  is positive: \<^verbatim>\<open>NewStorage\<close> returns an error exactly when a constraint on a field is
  violated, and otherwise returns a storage whose loop starts.
\<close>

lemma NewStorage_error_iff:
  assumes "tickDuration os = None \<or> (\<exists>d. tickDuration os = Some d \<and> 0 < d)"
  shows "(\<exists>e. NewStorage os = Inr (Inl e)) \<longleftrightarrow>
      (poolSize os < 1 \<or> queueSize os < 1 \<or> retries os < 0 \<or>
       \<not> (\<exists>d. tickDuration os = Some d \<and> 0 < d) \<or> endpoints os = [])"
proof (cases "validateOptions os")
  case None
  from NewStorage_ok[OF None] obtain m where
    "NewStorage os = Inr (Inr \<lparr>opts = os, pendingQuery = m, counters = zero_metrics, jobs = []\<rparr>)"
    by blast
  moreover from None have "\<not> (poolSize os < 1 \<or> queueSize os < 1 \<or> retries os < 0 \<or>
      tickDuration os = None \<or> endpoints os = [])"
    by (simp add: validateOptions_None)
  ultimately show ?thesis using assms by auto
next
  case (Some e)
  then have "NewStorage os = Inr (Inl e)" by (rule NewStorage_error)
  moreover from Some have "poolSize os < 1 \<or> queueSize os < 1 \<or> retries os < 0 \<or>
      tickDuration os = None \<or> endpoints os = []"
    using validateOptions_None[of os] by auto
  ultimately show ?thesis by auto
qed

text \<open>
  The loop of a storage that \<^verbatim>\<open>NewStorage\<close> returned panics at its start exactly when
  the configured \<^verbatim>\<open>tickDuration\<close> is not positive: the validation lets such a
  configuration through.
\<close>

lemma NewStorage_loop_panics_iff:
  assumes "NewStorage os = Inr (Inr s)"
  shows "(\<exists>pn. writeLoop_start s = Inl pn) \<longleftrightarrow> (\<exists>d. tickDuration os = Some d \<and> d \<le> 0)"
proof -
  from NewStorage_opts[OF assms] have v: "validateOptions os = None" and o: "opts s = os"
    by simp_all
  from v obtain d where d: "tickDuration os = Some d"
    by (cases "tickDuration os") (simp_all add: validateOptions_None)
  from d o show ?thesis by (simp add: writeLoop_start_def)
qed

text \<open>
  Claim C3. The claim asks that a \<^verbatim>\<open>tickDuration\<close> that is present but not positive is
  rejected at startup. The code does not do so: the configuration with the duration 0
  (and every other field valid) passes \<^verbatim>\<open>validateOptions\<close>, \<^verbatim>\<open>NewStorage\<close> returns the
  storage with no error, and the write loop it has started panics when it creates its
  ticker.
\<close>

theorem NewStorage_zero_tick_panics:
  "tickDuration (ex_opts 4 0 (Some 0) []) = Some 0 \<and>
   validateOptions (ex_opts 4 0 (Some 0) []) = None \<and>
   NewStorage (ex_opts 4 0 (Some 0) []) =
     Inr (Inr \<lparr>opts = ex_opts 4 0 (Some 0) [],
               pendingQuery = [(''D'', \<lparr>wq_t = ''D'', capacity = 4, queries = []\<rparr>)],
               counters = zero_metrics, jobs = []\<rparr>) \<and>
   writeLoop_start \<lparr>opts = ex_opts 4 0 (Some 0) [],
               pendingQuery = [(''D'', \<lparr>wq_t = ''D'', capacity = 4, queries = []\<rparr>)],
               counters = zero_metrics, jobs = []\<rparr> = Inl NonPositiveTickerInterval \<and>
   writeLoop ex_env [] \<lparr>opts = ex_opts 4 0 (Some 0) [],
               pendingQuery = [(''D'', \<lparr>wq_t = ''D'', capacity = 4, queries = []\<rparr>)],
               counters = zero_metrics, jobs = []\<rparr> = Inl NonPositiveTickerInterval"
proof -
  have t: "tickDuration (ex_opts 4 0 (Some 0) []) = Some 0" by (simp add: ex_opts_def)
  have v: "validateOptions (ex_opts 4 0 (Some 0) []) = None"
    by (simp add: validateOptions_def ex_opts_def)
  have n: "NewStorage (ex_opts 4 0 (Some 0) []) =
     Inr (Inr \<lparr>opts = ex_opts 4 0 (Some 0) [],
               pendingQuery = [(''D'', \<lparr>wq_t = ''D'', capacity = 4, queries = []\<rparr>)],
               counters = zero_metrics, jobs = []\<rparr>)"
    by (simp add: NewStorage_def validateOptions_def ex_opts_def NewWriteQueue_def
        make_queries_def)
  have w: "writeLoop_start \<lparr>opts = ex_opts 4 0 (Some 0) [],
               pendingQuery = [(''D'', \<lparr>wq_t = ''D'', capacity = 4, queries = []\<rparr>)],
               counters = zero_metrics, jobs = []\<rparr> = Inl NonPositiveTickerInterval"
    using t by (simp add: writeLoop_start_def)
  from t v n w show ?thesis by (simp add: writeLoop_def)
qed

subsection \<open>Tenant classification\<close>

lemma getTenant_rules_none:
  "(\<forall>r \<in> set rules. \<not> Filter r (Tags q)) \<Longrightarrow> getTenant_rules rules dflt q = dflt"
  by (induction rules) auto

lemma getTenant_rules_first:
  "i < length rules \<Longrightarrow> Filter (rules ! i) (Tags q) \<Longrightarrow>
   (\<forall>j. j < i \<longrightarrow> \<not> Filter (rules ! j) (Tags q)) \<Longrightarrow>
   getTenant_rules rules dflt q = Tenant (rules ! i)"
proof (induction rules arbitrary: i)
  case Nil
  then show ?case by simp
next
  case (Cons r rules)
  show ?case
  proof (cases i)
    case 0
    with Cons.prems show ?thesis by simp
  next
    case (Suc k)
    from Cons.prems(3) Suc have "\<not> Filter ((r # rules) ! 0) (Tags q)" by blast
    then have nr: "\<not> Filter r (Tags q)" by simp
    have "\<forall>j. j < k \<longrightarrow> \<not> Filter (rules ! j) (Tags q)"
    proof (intro allI impI)
      fix j assume "j < k"
      then have "Suc j < i" using Suc by simp
      with Cons.prems(3) have "\<not> Filter ((r # rules) ! Suc j) (Tags q)" by blast
      then show "\<not> Filter (rules ! j) (Tags q)" by simp
    qed
    with Cons.IH[of k] Cons.prems(1,2) Suc nr show ?thesis by simp
  qed
qed

lemma getTenant_rules_tags:
  "Tags q = Tags q' \<Longrightarrow> getTenant_rules rules dflt q = getTenant_rules rules dflt q'"
  by (induction rules) auto

text \<open>
  Claim C9. \<^verbatim>\<open>getTenant\<close> returns the tenant of the first rule, in the order of the
  list, whose matcher accepts the tags of the query, and the default tenant when no rule
  matches. Its result depends on the rules, the default tenant and the tags only, so two
  calls with the same rules and query return the same key.
\<close>

theorem getTenant_first_match:
  "(i < length (tenantRules os) \<and> Filter (tenantRules os ! i) (Tags q) \<and>
    (\<forall>j. j < i \<longrightarrow> \<not> Filter (tenantRules os ! j) (Tags q)) \<longrightarrow>
      getTenant os q = Tenant (tenantRules os ! i)) \<and>
   ((\<forall>r \<in> set (tenantRules os). \<not> Filter r (Tags q)) \<longrightarrow> getTenant os q = tenantDefault os) \<and>
   (tenantRules os' = tenantRules os \<and> tenantDefault os' = tenantDefault os \<and> Tags q' = Tags q \<longrightarrow>
      getTenant os' q' = getTenant os q)"
  using getTenant_rules_first[of i "tenantRules os" q "tenantDefault os"]
    getTenant_rules_none[of "tenantRules os" q "tenantDefault os"]
    getTenant_rules_tags[of q' q "tenantRules os" "tenantDefault os"]
  by (auto simp: getTenant_def)

theorem getTenant_first_match_witness:
  "getTenant (ex_opts 4 0 (Some 1000000000) ex_rules) (ex_query ''b'') = ''B'' \<and>
   Filter (tenantRules (ex_opts 4 0 (Some 1000000000) ex_rules) ! 1) (Tags (ex_query ''b'')) \<and>
   \<not> Filter (tenantRules (ex_opts 4 0 (Some 1000000000) ex_rules) ! 0) (Tags (ex_query ''b'')) \<and>
   getTenant (ex_opts 4 0 (Some 1000000000) ex_rules) (ex_query ''c'') = ''D''"
  using getTenant_first_match[of 1 "ex_opts 4 0 (Some 1000000000) ex_rules" "ex_query ''b''"
      "ex_opts 4 0 (Some 1000000000) ex_rules" "ex_query ''b''"]
    getTenant_first_match[of 0 "ex_opts 4 0 (Some 1000000000) ex_rules" "ex_query ''c''"
      "ex_opts 4 0 (Some 1000000000) ex_rules" "ex_query ''c''"]
  by (simp add: ex_opts_def ex_rules_def ex_query_def has_tag_def)

subsection \<open>The tenant re-verification of writeBatch\<close>

lemma writeBatch_empty:
  "filter (\<lambda>q. getTenant os q = tenant) qs = [] \<Longrightarrow>
   writeBatch ev os tr tenant qs m =
     Inr (None, m\<lparr>wrongTenant := wrongTenant m + int (length qs)\<rparr>)"
proof -
  assume h: "filter (\<lambda>q. getTenant os q = tenant) qs = []"
  then have "\<forall>q \<in> set qs. getTenant os q \<noteq> tenant" by (simp add: filter_empty_conv)
  then have "filter (\<lambda>q. getTenant os q \<noteq> tenant) qs = qs" by simp
  with h show ?thesis by (simp add: writeBatch_def recheck_filter)
qed

lemma writeBatch_counts:
  "writeBatch ev os tr tenant qs m = Inr (e, m') \<Longrightarrow>
   wrongTenant m' = wrongTenant m + int (length (filter (\<lambda>q. getTenant os q \<noteq> tenant) qs))"
  by (auto simp: writeBatch_def recheck_filter Let_def
           split: if_splits sum.splits list.splits)

lemma writeBatch_encodes:
  "filter (\<lambda>q. getTenant os q = tenant) qs \<noteq> [] \<Longrightarrow>
   writeBatch ev os tr tenant qs m = Inr (e, m') \<Longrightarrow>
   encodeCalls m' = encodeCalls m @ [filter (\<lambda>q. getTenant os q = tenant) qs]"
  by (auto simp: writeBatch_def recheck_filter Let_def
           split: if_splits sum.splits list.splits)

text \<open>
  Claim C6. \<^verbatim>\<open>writeBatch\<close> keeps exactly the queries of the batch that \<^verbatim>\<open>getTenant\<close>
  classifies to the tenant of the batch, in their order, and counts the others; it adds
  the number of discarded queries to \<^verbatim>\<open>wrong_tenant\<close>; the encoder gets exactly the
  queries kept; and when none is kept it returns no error and has neither encoded nor
  sent anything.
\<close>

theorem writeBatch_reverifies_tenant:
  "recheck os tenant qs ([], 0) =
     (filter (\<lambda>q. getTenant os q = tenant) qs,
      int (length (filter (\<lambda>q. getTenant os q \<noteq> tenant) qs))) \<and>
   (writeBatch ev os tr tenant qs m = Inr (e, m') \<longrightarrow>
      wrongTenant m' =
        wrongTenant m + int (length (filter (\<lambda>q. getTenant os q \<noteq> tenant) qs))) \<and>
   (filter (\<lambda>q. getTenant os q = tenant) qs \<noteq> [] \<and>
    writeBatch ev os tr tenant qs m = Inr (e, m') \<longrightarrow>
      encodeCalls m' = encodeCalls m @ [filter (\<lambda>q. getTenant os q = tenant) qs]) \<and>
   (filter (\<lambda>q. getTenant os q = tenant) qs = [] \<longrightarrow>
      writeBatch ev os tr tenant qs m =
        Inr (None, m\<lparr>wrongTenant := wrongTenant m + int (length qs)\<rparr>))"
  using writeBatch_counts[of ev os tr tenant qs m e m']
    writeBatch_encodes[of os tenant qs ev tr m e m']
    writeBatch_empty[of os tenant qs ev tr m]
  by (simp add: recheck_filter)

theorem writeBatch_reverifies_tenant_witness:
  "writeBatch ex_env (ex_opts 4 0 (Some 1000000000) ex_rules) (replay [] (Response 200)) ''A''
      [ex_query ''a'', ex_query ''b'', ex_query ''a''] zero_metrics
     = Inr (None, zero_metrics\<lparr>wrongTenant := 1, encodeCalls := [[ex_query ''a'', ex_query ''a'']],
                               httpRequests := 1\<rparr>) \<and>
   filter (\<lambda>q. getTenant (ex_opts 4 0 (Some 1000000000) ex_rules) q = ''A'')
      [ex_query ''a'', ex_query ''b'', ex_query ''a''] = [ex_query ''a'', ex_query ''a''] \<and>
   writeBatch ex_env (ex_opts 4 0 (Some 1000000000) ex_rules) (replay [] (Response 200)) ''A''
      [ex_query ''b''] zero_metrics
     = Inr (None, zero_metrics\<lparr>wrongTenant := 1\<rparr>)"
proof -
  let ?os = "ex_opts 4 0 (Some 1000000000) ex_rules"
  have ta: "getTenant ?os (ex_query ''a'') = ''A''" and tb: "getTenant ?os (ex_query ''b'') = ''B''"
    by (simp_all add: getTenant_def ex_opts_def ex_rules_def ex_query_def has_tag_def)
  have e0: "ends_retry (replay [] (Response 200) 0)"
    by (simp add: replay_def ends_retry_Response)
  have wb: "writeBatch ex_env ?os (replay [] (Response 200)) ''A''
      [ex_query ''a'', ex_query ''b'', ex_query ''a''] zero_metrics
     = Inr (None, zero_metrics\<lparr>wrongTenant := 1, encodeCalls := [[ex_query ''a'', ex_query ''a'']],
                               httpRequests := 1\<rparr>)"
  proof -
    have w: "promStorage_write ex_env ?os ex_endpoint ''A'' [] (replay [] (Response 200)) =
        \<lparr>w_err = None, w_attempts = 1, w_recorded = Some 200, w_sleeps = []\<rparr>"
      using e0
      by (simp add: promStorage_write_def ex_env_def ex_opts_def write_loop_end doRequest_def
          go_div_100 replay_def)
    have ep: "endpoints ?os = [ex_endpoint]" by (simp add: ex_opts_def)
    have enc: "convertAndEncodeWriteQuery ex_env [ex_query ''a'', ex_query ''a''] = Inr []"
      by (simp add: ex_env_def)
    from ta tb w ep enc show ?thesis
      by (simp add: writeBatch_def Let_def zero_metrics_def)
  qed
  from writeBatch_reverifies_tenant[of ?os "''A''" "[ex_query ''a'', ex_query ''b'', ex_query ''a'']"
      ex_env "replay [] (Response 200)" zero_metrics None
      "zero_metrics\<lparr>wrongTenant := 1, encodeCalls := [[ex_query ''a'', ex_query ''a'']],
                               httpRequests := 1\<rparr>"]
    writeBatch_reverifies_tenant[of ?os "''A''" "[ex_query ''b'']"
      ex_env "replay [] (Response 200)" zero_metrics None "zero_metrics\<lparr>wrongTenant := 1\<rparr>"]
    wb ta tb
  show ?thesis by (simp add: zero_metrics_def)
qed

subsection \<open>The tick flush\<close>

lemma flushPendingQueues_acc:
  "flushPendingQueues t pq acc =
     acc\<lparr>numWrites := numWrites acc +
            sum_list (map (\<lambda>kq. Len (snd kq)) (filter (\<lambda>kq. t \<le> Len (snd kq) \<and> 0 < Len (snd kq)) pq)),
         scheduled := scheduled acc @
            map fst (filter (\<lambda>kq. t \<le> Len (snd kq) \<and> 0 < Len (snd kq)) pq),
         warned := warned acc @
            map fst (filter (\<lambda>kq. 0 < Len (snd kq) \<and> Len (snd kq) < t) pq)\<rparr>"
proof (induction pq arbitrary: acc)
  case Nil
  then show ?case by simp
next
  case (Cons kq pq)
  obtain k queue where kq: "kq = (k, queue)" by (cases kq)
  have nn: "0 \<le> Len queue" by (simp add: Len_def)
  show ?case
  proof (cases "Len queue = 0")
    case True
    then show ?thesis unfolding kq by (simp add: Cons.IH)
  next
    case False
    with nn have pos: "0 < Len queue" by simp
    show ?thesis
    proof (cases "Len queue < t")
      case True
      with pos False show ?thesis unfolding kq by (simp add: Cons.IH)
    next
      case False
      with pos show ?thesis unfolding kq by (simp add: Cons.IH)
    qed
  qed
qed

text \<open>
  Claim C8. For every threshold \<open>t\<close> and every state of the queues,
  \<^verbatim>\<open>flushPendingQueues\<close> schedules a \<^verbatim>\<open>Flush\<close> for exactly the queues whose length is at
  least \<open>t\<close> and positive, logs the warning for exactly the non-empty queues shorter
  than \<open>t\<close>, does neither for an empty queue, and returns the sum of the lengths of the
  queues it scheduled. On a tick the loop calls it with Go's \<^verbatim>\<open>queueSize / 10\<close>, which
  is \<open>queueSize div 10\<close> for a queue size that is not negative.
\<close>

theorem flushPendingQueues_threshold:
  "scheduled (flushPendingQueues t pq flush_start) =
     map fst (filter (\<lambda>kq. t \<le> Len (snd kq) \<and> 0 < Len (snd kq)) pq) \<and>
   warned (flushPendingQueues t pq flush_start) =
     map fst (filter (\<lambda>kq. 0 < Len (snd kq) \<and> Len (snd kq) < t) pq) \<and>
   numWrites (flushPendingQueues t pq flush_start) =
     sum_list (map (\<lambda>kq. Len (snd kq)) (filter (\<lambda>kq. t \<le> Len (snd kq) \<and> 0 < Len (snd kq)) pq)) \<and>
   step ev Tick (p, False) = Inr (on_tick p, False) \<and>
   on_tick p =
     p\<lparr>jobs := jobs p @ map FlushJob
        (scheduled (flushPendingQueues (go_div (queueSize (opts p)) 10) (pendingQuery p) flush_start))\<rparr> \<and>
   (0 \<le> queueSize (opts p) \<longrightarrow> go_div (queueSize (opts p)) 10 = queueSize (opts p) div 10)"
proof -
  have acc: "flushPendingQueues t pq flush_start =
     \<lparr>numWrites =
        sum_list (map (\<lambda>kq. Len (snd kq)) (filter (\<lambda>kq. t \<le> Len (snd kq) \<and> 0 < Len (snd kq)) pq)),
      scheduled = map fst (filter (\<lambda>kq. t \<le> Len (snd kq) \<and> 0 < Len (snd kq)) pq),
      warned = map fst (filter (\<lambda>kq. 0 < Len (snd kq) \<and> Len (snd kq) < t) pq)\<rparr>"
    by (simp add: flushPendingQueues_acc flush_start_def)
  have tick: "step ev Tick (p, False) = Inr (on_tick p, False)"
    by (simp add: step_def)
  have thr: "on_tick p =
     p\<lparr>jobs := jobs p @ map FlushJob
        (scheduled (flushPendingQueues (go_div (queueSize (opts p)) 10) (pendingQuery p) flush_start))\<rparr>"
    by (simp add: on_tick_def Let_def)
  have dv: "0 \<le> queueSize (opts p) \<longrightarrow> go_div (queueSize (opts p)) 10 = queueSize (opts p) div 10"
    by (simp add: go_div_nonneg)
  from acc tick thr dv show ?thesis by simp
qed

theorem flushPendingQueues_threshold_witness:
  "flushPendingQueues (go_div 20 10)
      [(''A'', \<lparr>wq_t = ''A'', capacity = 20, queries = [ex_query ''a'', ex_query ''a'', ex_query ''a'']\<rparr>),
       (''B'', \<lparr>wq_t = ''B'', capacity = 20, queries = [ex_query ''b'']\<rparr>),
       (''D'', \<lparr>wq_t = ''D'', capacity = 20, queries = []\<rparr>)] flush_start
     = \<lparr>numWrites = 3, scheduled = [''A''], warned = [''B'']\<rparr> \<and>
   go_div 20 10 = 2 \<and>
   (0::int) \<le> queueSize (opts \<lparr>opts = ex_opts 20 0 (Some 1000000000) ex_rules, pendingQuery = [],
                                 counters = zero_metrics, jobs = []\<rparr>)"
  using flushPendingQueues_threshold[of 2
      "[(''A'', \<lparr>wq_t = ''A'', capacity = 20, queries = [ex_query ''a'', ex_query ''a'', ex_query ''a'']\<rparr>),
       (''B'', \<lparr>wq_t = ''B'', capacity = 20, queries = [ex_query ''b'']\<rparr>),
       (''D'', \<lparr>wq_t = ''D'', capacity = 20, queries = []\<rparr>)]" ex_env
      "\<lparr>opts = ex_opts 20 0 (Some 1000000000) ex_rules, pendingQuery = [],
                                 counters = zero_metrics, jobs = []\<rparr>"]
  by (simp add: ex_opts_def Len_def flush_start_def go_div_def)

subsection \<open>Every classified tenant has a queue\<close>

lemma getTenant_rules_range:
  "getTenant_rules rules dflt q = dflt \<or> getTenant_rules rules dflt q \<in> Tenant ` set rules"
  by (induction rules) auto

lemma fixedTenants_keys:
  "fixedTenants qsize rules m = Inr m' \<Longrightarrow>
   fst ` set m' = fst ` set m \<union> Tenant ` set rules \<and>
   (\<forall>kq \<in> set m'. kq \<in> set m \<or> capacity (snd kq) = qsize)"
proof (induction rules arbitrary: m)
  case Nil
  then show ?case by simp
next
  case (Cons rule rules)
  show ?case
  proof (cases "map_of m (Tenant rule) = None")
    case False
    then have "Tenant rule \<in> fst ` set m" by (simp add: map_of_eq_None_iff)
    moreover from Cons.prems False have "fixedTenants qsize rules m = Inr m'" by simp
    ultimately show ?thesis using Cons.IH[of m] by auto
  next
    case True
    with Cons.prems obtain wq where
      nw: "NewWriteQueue (Tenant rule) qsize = Inr wq"
      and rest: "fixedTenants qsize rules (m @ [(Tenant rule, wq)]) = Inr m'"
      by (auto simp: Let_def split: sum.splits)
    from nw have "capacity wq = qsize"
      by (auto simp: NewWriteQueue_def make_queries_def split: if_splits)
    with Cons.IH[OF rest] show ?thesis by auto
  qed
qed

lemma storage_inv_lookup:
  assumes "storage_inv os p"
  shows "\<exists>wq. map_of (pendingQuery p) (getTenant (opts p) q) = Some wq \<and> 0 \<le> capacity wq"
proof -
  from assms have o: "opts p = os" by (simp add: storage_inv_def)
  from assms have d: "tenantDefault os \<in> fst ` set (pendingQuery p)"
    and r: "Tenant ` set (tenantRules os) \<subseteq> fst ` set (pendingQuery p)"
    by (simp_all add: storage_inv_def)
  consider "getTenant os q = tenantDefault os" | "getTenant os q \<in> Tenant ` set (tenantRules os)"
    using getTenant_rules_range[of "tenantRules os" "tenantDefault os" q]
    unfolding getTenant_def by blast
  then have "getTenant os q \<in> fst ` set (pendingQuery p)"
  proof cases
    case 1
    with d show ?thesis by simp
  next
    case 2
    with r show ?thesis by blast
  qed
  then obtain wq where m: "map_of (pendingQuery p) (getTenant os q) = Some wq"
    by (cases "map_of (pendingQuery p) (getTenant os q)") (auto simp: map_of_eq_None_iff)
  then have "(getTenant os q, wq) \<in> set (pendingQuery p)" by (rule map_of_SomeD)
  with assms have "0 \<le> capacity wq" by (auto simp: storage_inv_def)
  with m o show ?thesis by simp
qed

lemma set_queue_keys: "map fst (set_queue t wq pq) = map fst pq"
  by (induction pq) auto

lemma set_queue_entries:
  "kq \<in> set (set_queue t wq pq) \<Longrightarrow> kq \<in> set pq \<or> snd kq = wq"
  by (induction pq) (auto split: if_splits)

lemma storage_inv_set_queue:
  assumes "storage_inv os p" and "0 \<le> capacity wq"
  shows "storage_inv os (p\<lparr>pendingQuery := set_queue t wq (pendingQuery p)\<rparr>)"
proof -
  have "set (map fst (set_queue t wq (pendingQuery p))) = set (map fst (pendingQuery p))"
    by (simp only: set_queue_keys)
  then have k: "fst ` set (set_queue t wq (pendingQuery p)) = fst ` set (pendingQuery p)"
    by simp
  have c: "\<forall>kq \<in> set (set_queue t wq (pendingQuery p)). 0 \<le> capacity (snd kq)"
  proof
    fix kq assume "kq \<in> set (set_queue t wq (pendingQuery p))"
    then have "kq \<in> set (pendingQuery p) \<or> snd kq = wq" by (rule set_queue_entries)
    with assms show "0 \<le> capacity (snd kq)" by (auto simp: storage_inv_def)
  qed
  from assms(1) k c show ?thesis by (simp add: storage_inv_def)
qed

lemma storage_inv_counters:
  "storage_inv os p \<Longrightarrow> noTenantFound m = 0 \<Longrightarrow> droppedWrites m = 0 \<Longrightarrow>
   storage_inv os (p\<lparr>counters := m\<rparr>)"
  by (simp add: storage_inv_def)

lemma storage_inv_jobs: "storage_inv os p \<Longrightarrow> storage_inv os (p\<lparr>jobs := js\<rparr>)"
  by (simp add: storage_inv_def)

lemma writeBatch_frame:
  "writeBatch ev os tr tenant qs m = Inr (e, m') \<Longrightarrow>
   noTenantFound m' = noTenantFound m \<and> droppedWrites m' = droppedWrites m"
  by (auto simp: writeBatch_def Let_def split: prod.splits if_splits sum.splits list.splits)

lemma Flush_frame:
  "Flush ev os tr wq m = Inr (wq', m') \<Longrightarrow>
   noTenantFound m' = noTenantFound m \<and> droppedWrites m' = droppedWrites m"
  by (auto simp: Flush_def Let_def split: prod.splits if_splits sum.splits dest: writeBatch_frame)

lemma on_recv_inv:
  assumes "storage_inv os p"
  shows "\<exists>p' stop'. on_recv query (p, stop) = Inr (p', stop') \<and> storage_inv os p'"
proof (cases query)
  case None
  then have "on_recv query (p, stop) = Inr (p, True)" by (simp add: on_recv_def)
  with assms show ?thesis by blast
next
  case (Some q)
  from storage_inv_lookup[OF assms, of q] obtain wq where
    m: "map_of (pendingQuery p) (getTenant (opts p) q) = Some wq" and c: "0 \<le> capacity wq"
    by blast
  show ?thesis
  proof (cases "capacity wq \<le> Len wq")
    case True
    from assms have z: "noTenantFound (counters p) = 0" "droppedWrites (counters p) = 0"
      by (simp_all add: storage_inv_def)
    have "storage_inv os (p\<lparr>pendingQuery :=
        set_queue (getTenant (opts p) q) (wq\<lparr>queries := []\<rparr>) (pendingQuery p)\<rparr>)"
      using assms c by (intro storage_inv_set_queue) simp_all
    then have "storage_inv os (p\<lparr>pendingQuery :=
        set_queue (getTenant (opts p) q) (wq\<lparr>queries := []\<rparr>) (pendingQuery p),
        counters := (counters p)\<lparr>batchWrite := batchWrite (counters p) + int (length (queries wq))\<rparr>,
        jobs := jobs p @ [WriteBatchJob (getTenant (opts p) q) (queries wq)]\<rparr>)"
      using z by (intro storage_inv_jobs storage_inv_counters) simp_all
    with Some m c True show ?thesis by (simp add: on_recv_def Let_def Add_full)
  next
    case False
    have "storage_inv os (p\<lparr>pendingQuery :=
        set_queue (getTenant (opts p) q) (wq\<lparr>queries := queries wq @ [q]\<rparr>) (pendingQuery p)\<rparr>)"
      using assms c by (intro storage_inv_set_queue) simp_all
    with Some m False show ?thesis by (simp add: on_recv_def Let_def Add_room)
  qed
qed

lemma on_tick_inv: "storage_inv os p \<Longrightarrow> storage_inv os (on_tick p)"
  by (simp add: storage_inv_def on_tick_def Let_def)

lemma drain_inv: "storage_inv os p \<Longrightarrow> storage_inv os (drain p)"
  by (simp add: storage_inv_def drain_def Let_def)

lemma run_job_inv:
  assumes "storage_inv os p"
  shows "\<exists>p'. run_job ev j tr p = Inr p' \<and> storage_inv os p'"
proof (cases j)
  case (WriteBatchJob t dataBatch)
  from assms have o: "opts p = os" and ep: "endpoints os \<noteq> []" by (simp_all add: storage_inv_def)
  from writeBatch_returns[OF ep] obtain e m' where
    wb: "writeBatch ev os tr t dataBatch (counters p) = Inr (e, m')" by blast
  from assms have z: "noTenantFound (counters p) = 0" "droppedWrites (counters p) = 0"
    by (simp_all add: storage_inv_def)
  with writeBatch_frame[OF wb] have "noTenantFound m' = 0" "droppedWrites m' = 0" by simp_all
  with assms have "storage_inv os (p\<lparr>counters := m'\<rparr>)" by (intro storage_inv_counters)
  with WriteBatchJob wb o show ?thesis by (simp add: run_job_def)
next
  case (FlushJob t)
  from assms have o: "opts p = os" and ep: "endpoints os \<noteq> []" by (simp_all add: storage_inv_def)
  show ?thesis
  proof (cases "map_of (pendingQuery p) t")
    case None
    with FlushJob assms show ?thesis by (simp add: run_job_def)
  next
    case (Some wq)
    then have "(t, wq) \<in> set (pendingQuery p)" by (rule map_of_SomeD)
    with assms have c: "0 \<le> capacity wq" by (auto simp: storage_inv_def)
    from Flush_returns[OF c ep] obtain wq' m' where
      fl: "Flush ev os tr wq (counters p) = Inr (wq', m')" by blast
    from Flush_queue[OF fl] c have c': "0 \<le> capacity wq'" by simp
    from assms have z: "noTenantFound (counters p) = 0" "droppedWrites (counters p) = 0"
      by (simp_all add: storage_inv_def)
    with Flush_frame[OF fl] have z': "noTenantFound m' = 0" "droppedWrites m' = 0" by simp_all
    have "storage_inv os (p\<lparr>pendingQuery := set_queue t wq' (pendingQuery p), counters := m'\<rparr>)"
      using storage_inv_set_queue[OF assms c'] z' by (intro storage_inv_counters) simp_all
    with FlushJob Some fl o show ?thesis by (simp add: run_job_def)
  qed
qed

lemma step_inv:
  assumes "storage_inv os p"
  shows "\<exists>p' stop'. step ev e (p, stop) = Inr (p', stop') \<and> storage_inv os p'"
proof (cases e)
  case (Recv query)
  from on_recv_inv[OF assms, of query stop] obtain p' stop' where
    r: "on_recv query (p, stop) = Inr (p', stop')" and i: "storage_inv os p'" by blast
  show ?thesis
  proof (cases stop)
    case True
    with Recv have "step ev e (p, stop) = Inr (p, stop)" by (simp add: step_def)
    with assms show ?thesis by blast
  next
    case False
    with Recv r have "step ev e (p, stop) = (if stop' then Inr (drain p', stop') else Inr (p', stop'))"
      by (simp add: step_def)
    with i drain_inv[OF i] show ?thesis by (cases stop') auto
  qed
next
  case Tick
  then have "step ev e (p, stop) = (if stop then Inr (p, stop) else Inr (on_tick p, stop))"
    by (simp add: step_def)
  with assms on_tick_inv[OF assms] show ?thesis by (cases stop) auto
next
  case (RunJob i tr)
  show ?thesis
  proof (cases "i < length (jobs p)")
    case False
    with RunJob have "step ev e (p, stop) = Inr (p, stop)" by (simp add: step_def)
    with assms show ?thesis by blast
  next
    case True
    have "storage_inv os (p\<lparr>jobs := take i (jobs p) @ drop (Suc i) (jobs p)\<rparr>)"
      using assms by (rule storage_inv_jobs)
    from run_job_inv[OF this, of ev "jobs p ! i" tr] RunJob True show ?thesis
      by (auto simp: step_def)
  qed
qed

lemma run_inv:
  "storage_inv os p \<Longrightarrow> \<exists>p' stop'. run ev es (p, stop) = Inr (p', stop') \<and> storage_inv os p'"
proof (induction es arbitrary: p stop)
  case Nil
  then show ?case by simp
next
  case (Cons e es)
  from step_inv[OF Cons.prems, of ev e stop] obtain p1 stop1 where
    s: "step ev e (p, stop) = Inr (p1, stop1)" and i: "storage_inv os p1" by blast
  from Cons.IH[OF i, of stop1] s show ?case by simp
qed

lemma fixedTenants_distinct:
  "fixedTenants qsize rules m = Inr m' \<Longrightarrow> distinct (map fst m) \<Longrightarrow> distinct (map fst m')"
proof (induction rules arbitrary: m)
  case Nil
  then show ?case by simp
next
  case (Cons rule rules)
  show ?case
  proof (cases "map_of m (Tenant rule) = None")
    case False
    with Cons.prems have "fixedTenants qsize rules m = Inr m'" by simp
    from Cons.IH[OF this Cons.prems(2)] show ?thesis .
  next
    case True
    with Cons.prems(1) obtain wq where
      rest: "fixedTenants qsize rules (m @ [(Tenant rule, wq)]) = Inr m'"
      by (auto simp: Let_def split: sum.splits)
    from True have "Tenant rule \<notin> fst ` set m" by (simp add: map_of_eq_None_iff)
    with Cons.prems(2) have "distinct (map fst (m @ [(Tenant rule, wq)]))" by simp
    from Cons.IH[OF rest this] show ?thesis .
  qed
qed

lemma NewStorage_keys:
  assumes "NewStorage os = Inr (Inr s)"
  shows "opts s = os \<and> distinct (map fst (pendingQuery s)) \<and>
         set (map fst (pendingQuery s)) = insert (tenantDefault os) (Tenant ` set (tenantRules os))"
proof -
  have v: "validateOptions os = None"
  proof (cases "validateOptions os")
    case (Some e)
    with assms show ?thesis by (simp add: NewStorage_error)
  qed simp
  from NewStorage_ok[OF v] assms obtain m where
    ft: "fixedTenants (queueSize os) (tenantRules os)
               [(tenantDefault os, \<lparr>wq_t = tenantDefault os, capacity = queueSize os, queries = []\<rparr>)]
             = Inr m"
    and s: "s = \<lparr>opts = os, pendingQuery = m, counters = zero_metrics, jobs = []\<rparr>"
    by auto
  from fixedTenants_keys[OF ft]
  have k: "fst ` set m = insert (tenantDefault os) (Tenant ` set (tenantRules os))" by auto
  from fixedTenants_distinct[OF ft] have d: "distinct (map fst m)" by simp
  from k d show ?thesis unfolding s by simp
qed

lemma NewStorage_inv:
  assumes "NewStorage os = Inr (Inr s)"
  shows "storage_inv os s"
proof -
  have v: "validateOptions os = None"
  proof (cases "validateOptions os")
    case (Some e)
    with assms show ?thesis by (simp add: NewStorage_error)
  qed simp
  from NewStorage_ok[OF v] assms obtain m where
    ft: "fixedTenants (queueSize os) (tenantRules os)
               [(tenantDefault os, \<lparr>wq_t = tenantDefault os, capacity = queueSize os, queries = []\<rparr>)]
             = Inr m"
    and s: "s = \<lparr>opts = os, pendingQuery = m, counters = zero_metrics, jobs = []\<rparr>"
    by auto
  from v have q: "0 \<le> queueSize os" and ep: "endpoints os \<noteq> []"
    by (simp_all add: validateOptions_None)
  from fixedTenants_keys[OF ft] q
  have k: "fst ` set m = {tenantDefault os} \<union> Tenant ` set (tenantRules os)"
    and c: "\<forall>kq \<in> set m. 0 \<le> capacity (snd kq)" by auto
  from k c ep show ?thesis unfolding s by (auto simp: storage_inv_def zero_metrics_def)
qed

text \<open>
  Claim C10. The keys of the map \<^verbatim>\<open>pendingQuery\<close> of a storage that \<^verbatim>\<open>NewStorage\<close>
  returned are the default tenant and the tenants of the rules, each once. For every
  query, the key that \<^verbatim>\<open>getTenant\<close> returns is a key of that map; this stays so after every
  sequence of events of the loop and of the workers, none of which panics, and the
  counters \<^verbatim>\<open>no_tenant_found\<close> and \<^verbatim>\<open>dropped_writes\<close> stay 0: the branch of the loop
  that drops a query without tenant is never taken.
\<close>

theorem classified_tenant_has_queue:
  assumes "NewStorage os = Inr (Inr s)"
  shows "set (map fst (pendingQuery s)) =
      insert (tenantDefault os) (Tenant ` set (tenantRules os)) \<and>
    distinct (map fst (pendingQuery s)) \<and>
    getTenant (opts s) q \<in> set (map fst (pendingQuery s)) \<and>
    map_of (pendingQuery s) (getTenant (opts s) q) \<noteq> None \<and>
    (\<forall>es. \<exists>p stop. run ev es (s, False) = Inr (p, stop) \<and>
        noTenantFound (counters p) = 0 \<and> droppedWrites (counters p) = 0 \<and>
        (\<forall>q'. map_of (pendingQuery p) (getTenant (opts p) q') \<noteq> None))"
proof -
  from assms have i: "storage_inv os s" by (rule NewStorage_inv)
  from storage_inv_lookup[OF i, of q] have a: "map_of (pendingQuery s) (getTenant (opts s) q) \<noteq> None"
    by auto
  have b: "\<exists>p stop. run ev es (s, False) = Inr (p, stop) \<and>
        noTenantFound (counters p) = 0 \<and> droppedWrites (counters p) = 0 \<and>
        (\<forall>q'. map_of (pendingQuery p) (getTenant (opts p) q') \<noteq> None)" for es
  proof -
    from run_inv[OF i, of ev es False] obtain p stop where
      r: "run ev es (s, False) = Inr (p, stop)" and ip: "storage_inv os p" by blast
    from ip have "noTenantFound (counters p) = 0" "droppedWrites (counters p) = 0"
      by (simp_all add: storage_inv_def)
    moreover have "\<forall>q'. map_of (pendingQuery p) (getTenant (opts p) q') \<noteq> None"
      using storage_inv_lookup[OF ip] by auto
    ultimately show ?thesis using r by blast
  qed
  from NewStorage_keys[OF assms]
  have k: "set (map fst (pendingQuery s)) =
      insert (tenantDefault os) (Tenant ` set (tenantRules os))"
    and d: "distinct (map fst (pendingQuery s))" by simp_all
  from a have m: "getTenant (opts s) q \<in> set (map fst (pendingQuery s))"
    by (simp add: map_of_eq_None_iff)
  from b have b': "\<forall>es. \<exists>p stop. run ev es (s, False) = Inr (p, stop) \<and>
        noTenantFound (counters p) = 0 \<and> droppedWrites (counters p) = 0 \<and>
        (\<forall>q'. map_of (pendingQuery p) (getTenant (opts p) q') \<noteq> None)" by (rule allI)
  show ?thesis
    apply (intro conjI)
        apply (rule k)
       apply (rule d)
      apply (rule m)
     apply (rule a)
    apply (rule b')
    done
qed

theorem classified_tenant_has_queue_witness:
  "NewStorage (ex_opts 2 0 (Some 1000000000) ex_rules) =
     Inr (Inr \<lparr>opts = ex_opts 2 0 (Some 1000000000) ex_rules,
               pendingQuery =
                 [(''D'', \<lparr>wq_t = ''D'', capacity = 2, queries = []\<rparr>),
                  (''A'', \<lparr>wq_t = ''A'', capacity = 2, queries = []\<rparr>),
                  (''B'', \<lparr>wq_t = ''B'', capacity = 2, queries = []\<rparr>)],
               counters = zero_metrics, jobs = []\<rparr>) \<and>
   getTenant (ex_opts 2 0 (Some 1000000000) ex_rules) (ex_query ''b'') = ''B'' \<and>
   map_of [(''D'', \<lparr>wq_t = ''D'', capacity = 2, queries = []\<rparr>),
           (''A'', \<lparr>wq_t = ''A'', capacity = 2, queries = []\<rparr>),
           (''B'', \<lparr>wq_t = ''B'', capacity = 2, queries = []\<rparr>)]
      (getTenant (ex_opts 2 0 (Some 1000000000) ex_rules) (ex_query ''b'')) \<noteq> None \<and>
   run ex_env [Recv (Some (ex_query ''b'')), Recv (Some (ex_query ''c'')), Tick]
     (\<lparr>opts = ex_opts 2 0 (Some 1000000000) ex_rules,
       pendingQuery =
         [(''D'', \<lparr>wq_t = ''D'', capacity = 2, queries = []\<rparr>),
          (''A'', \<lparr>wq_t = ''A'', capacity = 2, queries = []\<rparr>),
          (''B'', \<lparr>wq_t = ''B'', capacity = 2, queries = []\<rparr>)],
       counters = zero_metrics, jobs = []\<rparr>, False) =
     Inr (\<lparr>opts = ex_opts 2 0 (Some 1000000000) ex_rules,
           pendingQuery =
             [(''D'', \<lparr>wq_t = ''D'', capacity = 2, queries = [ex_query ''c'']\<rparr>),
              (''A'', \<lparr>wq_t = ''A'', capacity = 2, queries = []\<rparr>),
              (''B'', \<lparr>wq_t = ''B'', capacity = 2, queries = [ex_query ''b'']\<rparr>)],
           counters = zero_metrics, jobs = [FlushJob ''D'', FlushJob ''B'']\<rparr>, False)"
proof -
  let ?os = "ex_opts 2 0 (Some 1000000000) ex_rules"
  let ?s = "\<lparr>opts = ?os,
       pendingQuery =
         [(''D'', \<lparr>wq_t = ''D'', capacity = 2, queries = []\<rparr>),
          (''A'', \<lparr>wq_t = ''A'', capacity = 2, queries = []\<rparr>),
          (''B'', \<lparr>wq_t = ''B'', capacity = 2, queries = []\<rparr>)],
       counters = zero_metrics, jobs = []\<rparr>"
  have new: "NewStorage ?os = Inr (Inr ?s)"
    by (simp add: NewStorage_def validateOptions_def ex_opts_def ex_rules_def NewWriteQueue_def
        make_queries_def Let_def)
  have tb: "getTenant ?os (ex_query ''b'') = ''B''" and tc: "getTenant ?os (ex_query ''c'') = ''D''"
    by (simp_all add: getTenant_def ex_opts_def ex_rules_def ex_query_def has_tag_def)
  have qs: "queueSize ?os = 2" by (simp add: ex_opts_def)
  have run: "run ex_env [Recv (Some (ex_query ''b'')), Recv (Some (ex_query ''c'')), Tick] (?s, False) =
     Inr (\<lparr>opts = ?os,
           pendingQuery =
             [(''D'', \<lparr>wq_t = ''D'', capacity = 2, queries = [ex_query ''c'']\<rparr>),
              (''A'', \<lparr>wq_t = ''A'', capacity = 2, queries = []\<rparr>),
              (''B'', \<lparr>wq_t = ''B'', capacity = 2, queries = [ex_query ''b'']\<rparr>)],
           counters = zero_metrics, jobs = [FlushJob ''D'', FlushJob ''B'']\<rparr>, False)"
    using tb tc qs
    by (simp add: step_def on_recv_def on_tick_def Add_def Len_def Let_def go_div_def
        flush_start_def)
  from classified_tenant_has_queue[OF new, of "ex_query ''b''" ex_env] new tb run
  show ?thesis by simp
qed

end
